theory Spec2Isabelle
  imports Complex_Main "HOL-Library.AList" "HOL-Library.List_Lexorder" "HOL-Library.Char_ord"
    "HOL-Library.Log_Nat"
begin

section \<open>Shut the Box: the rule engine of \<^verbatim>\<open>game.py\<close>\<close>

text \<open>
  Python integers are unbounded, so tiles, rolls and targets are \<^typ>\<open>int\<close>. A tuple of
  tiles is an \<^typ>\<open>int list\<close>; Python compares tuples lexicographically with a proper
  prefix smaller than its extensions, which is the order of \<open>List_Lexorder\<close>.
\<close>

type_synonym TileSet = "int list"

subsection \<open>The combination enumerator\<close>

text \<open>
  \<^verbatim>\<open>itertools.combinations(nums, k)\<close>: the subsequences of \<open>nums\<close> of length \<open>k\<close>, in the
  lexicographic order of the positions they are taken from.
\<close>

fun combinations :: "'a list \<Rightarrow> nat \<Rightarrow> 'a list list" where
  "combinations xs 0 = [[]]"
| "combinations [] (Suc k) = []"
| "combinations (x # xs) (Suc k) =
     map ((#) x) (combinations xs k) @ combinations xs (Suc k)"

text \<open>
  \<^verbatim>\<open>
  def combos_that_sum(nums, target):
      nums = sorted(nums)
      out = []
      for k in range(1, len(nums) + 1):
          for c in combinations(nums, k):
              if sum(c) == target:
                  out.append(c)
      out = sorted(set(out))
      return out
  \<close>
  The two nested loops append, for \<open>k = 1, \<dots>, len(nums)\<close> in turn, the combinations of
  size \<open>k\<close> that pass the test; \<^verbatim>\<open>sorted(set(out))\<close> is the sorted list of the distinct
  tuples collected.
\<close>

definition combos_that_sum :: "int list \<Rightarrow> int \<Rightarrow> TileSet list" where
  "combos_that_sum nums target =
     (let nums' = sort nums;
          out = concat (map (\<lambda>k. filter (\<lambda>c. sum_list c = target) (combinations nums' k))
                            [1 ..< length nums' + 1])
      in sorted_list_of_set (set out))"

subsection \<open>The game state\<close>

text \<open>
  The dataclass \<^verbatim>\<open>Game\<close>. The dictionary \<^verbatim>\<open>tiles\<close> (tile \<open>\<mapsto>\<close> open?) keeps its insertion
  order, which \<^verbatim>\<open>open_tiles\<close> reads, so it is an association list: a lookup is
  \<^const>\<open>map_of\<close>, the assignment \<^verbatim>\<open>tiles[t] = v\<close> is \<^const>\<open>AList.update\<close> (in place for a
  key that is present, appended for a new one). The random generator \<^verbatim>\<open>rng\<close> is not a
  field of the model: each \<^verbatim>\<open>roll\<close> receives the outcomes its calls of
  \<^verbatim>\<open>rng.randint(1, 6)\<close> produce.
\<close>

record Game =
  tiles_max :: int
  single_die_rule :: bool
  tiles :: "(int \<times> bool) list"
  over :: bool
  last_roll :: "int option"

datatype error = ValueError | IndexError

text \<open>The constructor with \<^verbatim>\<open>__post_init__\<close>: it refuses \<open>tiles_max < 1\<close>.\<close>

definition new_game :: "int \<Rightarrow> bool \<Rightarrow> error + Game" where
  "new_game n single =
     (if n < 1 then Inl ValueError
      else Inr \<lparr> tiles_max = n, single_die_rule = single,
                 tiles = map (\<lambda>i. (i, True)) [1 .. n],
                 over = False, last_roll = None \<rparr>)"

text \<open>A Python dictionary holds each key once.\<close>

definition dict_ok :: "Game \<Rightarrow> bool" where
  "dict_ok g \<longleftrightarrow> distinct (map fst (tiles g))"

text \<open>The board invariant of the constructor: the keys are exactly \<open>1..tiles_max\<close>.\<close>

definition board_ok :: "Game \<Rightarrow> bool" where
  "board_ok g \<longleftrightarrow> map fst (tiles g) = [1 .. tiles_max g]"

subsection \<open>Queries\<close>

definition open_tiles :: "Game \<Rightarrow> int list" where
  "open_tiles g = map fst (filter (\<lambda>(i, is_open). is_open) (tiles g))"

definition score :: "Game \<Rightarrow> int" where
  "score g = sum_list (open_tiles g)"

text \<open>\<^verbatim>\<open>self.tiles.get(i, False)\<close>\<close>

definition tiles_get :: "Game \<Rightarrow> int \<Rightarrow> bool" where
  "tiles_get g i = (case map_of (tiles g) i of None \<Rightarrow> False | Some b \<Rightarrow> b)"

definition can_use_single_die :: "Game \<Rightarrow> bool" where
  "can_use_single_die g =
     (if \<not> single_die_rule g then False
      else let high = filter (\<lambda>i. i \<le> tiles_max g) [7, 8, 9]
           in list_all (\<lambda>i. \<not> tiles_get g i) high)"

definition available_moves :: "Game \<Rightarrow> int \<Rightarrow> TileSet list" where
  "available_moves g target = combos_that_sum (open_tiles g) target"

subsection \<open>Actions\<close>

text \<open>
  The outcomes of the first and of the second call of \<^verbatim>\<open>rng.randint(1, 6)\<close> in one
  \<^verbatim>\<open>roll\<close>; the second is read only when two dice are thrown.
\<close>

type_synonym dice = "int \<times> int"

text \<open>\<^verbatim>\<open>roll(forced)\<close> returns the roll and the updated game.\<close>

definition roll :: "Game \<Rightarrow> int option \<Rightarrow> dice \<Rightarrow> int \<times> Game" where
  "roll g forced d =
     (if over g then ((case last_roll g of Some r \<Rightarrow> r | None \<Rightarrow> 0), g)
      else
        let r = (case forced of
                   Some v \<Rightarrow> v
                 | None \<Rightarrow> if can_use_single_die g then fst d else fst d + snd d);
            g1 = g\<lparr>last_roll := Some r\<rparr>;
            g2 = (if available_moves g1 r = [] then g1\<lparr>over := True\<rparr> else g1)
        in (r, g2))"

text \<open>
  \<^verbatim>\<open>move(chosen)\<close> returns the boolean result and the updated game. No statement of it
  raises on a list of integers.
\<close>

definition close_tiles :: "int list \<Rightarrow> (int \<times> bool) list \<Rightarrow> (int \<times> bool) list" where
  "close_tiles chosen ts = fold (\<lambda>t. AList.update t False) chosen ts"

definition move :: "Game \<Rightarrow> int list \<Rightarrow> bool \<times> Game" where
  "move g chosen =
     (if over g \<or> last_roll g = None then (False, g)
      else
        let chosen' = sort chosen in
        if chosen' \<notin> set (available_moves g (the (last_roll g))) then (False, g)
        else
          let g1 = g\<lparr>tiles := close_tiles chosen' (tiles g)\<rparr>;
              g2 = g1\<lparr>last_roll := None\<rparr>;
              g3 = (if open_tiles g2 = [] then g2\<lparr>over := True\<rparr> else g2)
          in (True, g3))"

text \<open>
  A caller's sequence of calls on one game: each call is a \<^verbatim>\<open>roll\<close> (with its \<open>forced\<close>
  argument and the dice the generator would give) or a \<^verbatim>\<open>move\<close>.
\<close>

datatype call = Roll "int option" dice | Move "int list"

definition call_result :: "Game \<Rightarrow> call \<Rightarrow> Game" where
  "call_result g c = (case c of Roll forced d \<Rightarrow> snd (roll g forced d)
                              | Move chosen \<Rightarrow> snd (move g chosen))"

definition calls :: "Game \<Rightarrow> call list \<Rightarrow> Game" where
  "calls g cs = fold (\<lambda>c g'. call_result g' c) cs g"

section \<open>The policies\<close>

subsection \<open>Python's \<^verbatim>\<open>min\<close> with a key and \<^verbatim>\<open>random.choice\<close>\<close>

text \<open>
  \<^verbatim>\<open>min(xs, key=f)\<close> keeps the first item and replaces it only by an item whose key is
  strictly smaller, so it returns the first of the items of least key; on an empty
  sequence it raises, which is \<open>None\<close> here.
\<close>

fun min_by :: "('a \<Rightarrow> int) \<Rightarrow> 'a list \<Rightarrow> 'a option" where
  "min_by key [] = None"
| "min_by key (x # xs) =
     Some (foldl (\<lambda>best y. if key y < key best then y else best) x xs)"

text \<open>
  \<^verbatim>\<open>choice(seq)\<close> returns \<open>seq[i]\<close> for an index \<open>i\<close> below \<open>len(seq)\<close> that the generator
  draws; \<open>k\<close> is the generator's draw. Every caller checks that \<open>seq\<close> is not empty.
\<close>

definition choice :: "nat \<Rightarrow> 'a list \<Rightarrow> 'a" where
  "choice k xs = xs ! (k mod length xs)"

subsection \<open>\<^verbatim>\<open>simulate_all_strategies.py\<close>\<close>


definition policy_greedy_min_remaining :: "Game \<Rightarrow> dice \<Rightarrow> TileSet option \<times> Game" where
  "policy_greedy_min_remaining game d =
     (let (r, game') = roll game None d;
          moves = available_moves game' r
      in if moves = [] then (None, game')
         else (min_by (\<lambda>mv. sum_list (open_tiles game') - sum_list mv) moves, game'))"


subsection \<open>\<^verbatim>\<open>shutbox/policies.py\<close>\<close>

text \<open>
  The helpers \<^verbatim>\<open>_open_tiles_list\<close>, \<^verbatim>\<open>_tiles_to_key\<close>, \<^verbatim>\<open>_compute_legal_moves\<close> and
  \<^verbatim>\<open>_remaining_sum_after\<close> (a name cannot start with an underscore here), on the branch
  for a dictionary of tiles. \<^verbatim>\<open>scripts/collect_runs.py\<close> has the same four functions,
  statement for statement, as \<^verbatim>\<open>open_tiles_list\<close>, \<^verbatim>\<open>tiles_to_str\<close>,
  \<^verbatim>\<open>compute_legal_moves\<close> and \<^verbatim>\<open>remaining_sum_after\<close>.
\<close>

definition open_tiles_list :: "Game \<Rightarrow> int list" where
  "open_tiles_list game = map fst (filter (\<lambda>(t, is_open). is_open) (tiles game))"

text \<open>\<^verbatim>\<open>str(i)\<close> for an integer: its decimal digits, after a minus sign when negative.\<close>

definition digit :: "nat \<Rightarrow> char" where
  "digit n = char_of (48 + n)"

function str_nat :: "nat \<Rightarrow> string" where
  "str_nat n = (if n < 10 then [digit n] else str_nat (n div 10) @ [digit (n mod 10)])"
  by pat_completeness auto
termination
  by (relation "measure (\<lambda>n. n)") auto

definition str_int :: "int \<Rightarrow> string" where
  "str_int i = (if i < 0 then CHR ''-'' # str_nat (nat (- i)) else str_nat (nat i))"

definition tiles_to_key :: "Game \<Rightarrow> string" where
  "tiles_to_key game =
     concat (map (\<lambda>i. if tiles_get game i then str_int i else ''X'') [1 .. tiles_max game])"

text \<open>
  \<^verbatim>\<open>
  def _compute_legal_moves(game, roll_val):
      opens = _open_tiles_list(game)
      moves = [[t] for t in opens if t == roll_val]
      n = len(opens)
      for i in range(n):
          for j in range(i + 1, n):
              a, b = opens[i], opens[j]
              if a + b == roll_val:
                  moves.append([a, b])
      return moves
  \<close>
\<close>

definition compute_legal_moves :: "Game \<Rightarrow> int \<Rightarrow> int list list" where
  "compute_legal_moves game roll_val =
     (let opens = open_tiles_list game;
          moves = map (\<lambda>t. [t]) (filter (\<lambda>t. t = roll_val) opens);
          n = length opens
      in moves @
         concat (map (\<lambda>i. concat (map (\<lambda>j. let a = opens ! i; b = opens ! j
                                           in if a + b = roll_val then [[a, b]] else [])
                                      [i + 1 ..< n]))
                     [0 ..< n]))"

text \<open>\<^verbatim>\<open>Game\<close> has no attribute \<^verbatim>\<open>remaining_sum_after\<close>, so the last line computes.\<close>

definition remaining_sum_after :: "Game \<Rightarrow> int list option \<Rightarrow> int" where
  "remaining_sum_after game mv =
     (let mv' = (case mv of None \<Rightarrow> [] | Some m \<Rightarrow> m)
      in sum_list (open_tiles_list game) - sum_list mv')"

definition random_move :: "Game \<Rightarrow> dice \<Rightarrow> nat \<Rightarrow> int list option \<times> Game" where
  "random_move game d k =
     (let (roll_val, game') = roll game None d;
          legal = compute_legal_moves game' roll_val
      in (if legal \<noteq> [] then Some (choice k legal) else None, game'))"

definition greedy_move :: "Game \<Rightarrow> dice \<Rightarrow> int list option \<times> Game" where
  "greedy_move game d =
     (let (roll_val, game') = roll game None d;
          legal = compute_legal_moves game' roll_val
      in if legal = [] then (None, game')
         else (min_by (\<lambda>mv. remaining_sum_after game' (Some mv)) legal, game'))"

definition human_move :: "Game \<Rightarrow> dice \<Rightarrow> dice \<Rightarrow> int list option \<times> Game" where
  "human_move game d d' =
     (let (roll_val, game') = roll game None d;
          legal = compute_legal_moves game' roll_val
      in if legal = [] then (None, game')
         else let multi = filter (\<lambda>mv. length mv \<ge> 2) legal
              in if multi \<noteq> []
                 then (min_by (\<lambda>mv. remaining_sum_after game' (Some mv)) multi, game')
                 else greedy_move game' d')"

text \<open>\<^verbatim>\<open>s.split("+")\<close>: the pieces of \<open>s\<close> between the separators, empty pieces kept.\<close>

fun split_on :: "char \<Rightarrow> string \<Rightarrow> string list" where
  "split_on c [] = [[]]"
| "split_on c (x # xs) =
     (if x = c then [] # split_on c xs
      else (case split_on c xs of w # ws \<Rightarrow> (x # w) # ws | [] \<Rightarrow> [[x]]))"

text \<open>
  \<^verbatim>\<open>list(map(int, pieces))\<close>; \<open>py_int\<close> is Python's \<^verbatim>\<open>int\<close> on a string, \<open>None\<close> where it
  raises \<^verbatim>\<open>ValueError\<close>, and the first piece that raises ends the conversion.
\<close>

fun map_int :: "(string \<Rightarrow> int option) \<Rightarrow> string list \<Rightarrow> error + int list" where
  "map_int py_int [] = Inr []"
| "map_int py_int (s # ss) =
     (case py_int s of
        None \<Rightarrow> Inl ValueError
      | Some v \<Rightarrow> (case map_int py_int ss of Inl e \<Rightarrow> Inl e | Inr vs \<Rightarrow> Inr (v # vs)))"

text \<open>
  The closure \<^verbatim>\<open>pick_move\<close> that \<^verbatim>\<open>table_policy_loader\<close> returns. The loaded table is a
  parameter, a dictionary from keys to move strings; so is Python's \<^verbatim>\<open>int\<close> on strings.
  The result pairs what the call returns, or the exception it raises, with the game as
  the call leaves it: the roll is made before anything can raise.
\<close>

definition pick_move ::
  "(string \<rightharpoonup> string) \<Rightarrow> (string \<Rightarrow> int option) \<Rightarrow> Game \<Rightarrow> dice
     \<Rightarrow> (error + int list option) \<times> Game" where
  "pick_move table py_int game d =
     (let (roll_val, game') = roll game None d;
          legal = compute_legal_moves game' roll_val
      in if legal = [] then (Inr None, game')
         else
           let key = tiles_to_key game' @ ''|'' @ str_int roll_val;
               fallback = (Inr (min_by (\<lambda>mv. remaining_sum_after game' (Some mv)) legal), game')
           in (case table key of
                 None \<Rightarrow> fallback
               | Some hit \<Rightarrow>
                   if hit = [] then fallback
                   else (case map_int py_int (split_on CHR ''+'' hit) of
                           Inl e \<Rightarrow> (Inl e, game')
                         | Inr want \<Rightarrow> if want \<in> set legal then (Inr (Some want), game')
                                       else fallback)))"

subsection \<open>\<^verbatim>\<open>scripts/collect_runs.py\<close>\<close>

text \<open>
  One turn of the loop of \<^verbatim>\<open>run\<close>: roll, enumerate with \<^verbatim>\<open>compute_legal_moves\<close>, stop when
  there is no move, otherwise choose one at random and apply it with the method
  \<^verbatim>\<open>move\<close> that \<^verbatim>\<open>_find_move_fn\<close> finds. The result is the chosen move and the game.
\<close>

definition collect_turn :: "Game \<Rightarrow> dice \<Rightarrow> nat \<Rightarrow> int list option \<times> Game" where
  "collect_turn g d k =
     (let (roll_val, g1) = roll g None d;
          legal = compute_legal_moves g1 roll_val
      in if legal = [] then (None, g1)
         else let mv = choice k legal;
                  (ok, g2) = move g1 mv
              in (Some mv, g2))"

subsection \<open>\<^verbatim>\<open>scripts/visual_demo.py\<close>, \<^verbatim>\<open>scripts/print_demo.py\<close>, \<^verbatim>\<open>scripts/curses_demo.py\<close>\<close>

text \<open>
  The three scripts hold the same \<^verbatim>\<open>min_score_policy\<close>; it receives the game and the
  legal moves the caller has enumerated, and does not roll.
  \<^verbatim>\<open>
  def min_score_policy(g, legal_moves):
      """
      Choose the legal move that minimizes the board's score after the move.
      Ties are broken by preferring fewer tiles.
      """
      if not legal_moves:
          return tuple()
      best_move = None
      best_score = float("inf")
      for move in legal_moves:
          temp_tiles = g.tiles.copy()
          for t in move:
              temp_tiles[t] = False
          score_after = sum(i for i, is_open in temp_tiles.items() if is_open)
          if (score_after < best_score) or (
              score_after == best_score
              and (best_move is None or len(move) < len(best_move))
          ):
              best_move = move
              best_score = score_after
      return best_move if best_move is not None else tuple()
  \<close>
  The infinite \<^verbatim>\<open>best_score\<close> of the start is \<open>None\<close>: every score is below it and none
  equals it. The loop variable \<^verbatim>\<open>move\<close> is \<open>mv\<close>, \<open>move\<close> being the engine's action.
\<close>

definition score_after :: "Game \<Rightarrow> TileSet \<Rightarrow> int" where
  "score_after g mv =
     (let temp_tiles = close_tiles mv (tiles g)
      in sum_list (map fst (filter (\<lambda>(i, is_open). is_open) temp_tiles)))"

definition min_score_step ::
  "Game \<Rightarrow> TileSet \<Rightarrow> TileSet option \<times> int option \<Rightarrow> TileSet option \<times> int option" where
  "min_score_step g mv st =
     (let (best_move, best_score) = st;
          sa = score_after g mv
      in if (case best_score of None \<Rightarrow> True | Some b \<Rightarrow> sa < b)
            \<or> (best_score = Some sa
                \<and> (case best_move of None \<Rightarrow> True | Some bm \<Rightarrow> length mv < length bm))
         then (Some mv, Some sa)
         else (best_move, best_score))"

definition min_score_policy :: "Game \<Rightarrow> TileSet list \<Rightarrow> TileSet" where
  "min_score_policy g legal_moves =
     (if legal_moves = [] then []
      else (case fst (fold (min_score_step g) legal_moves (None, None)) of
              None \<Rightarrow> []
            | Some best_move \<Rightarrow> best_move))"

section \<open>The aggregator of \<^verbatim>\<open>analyze_results.py\<close>\<close>

text \<open>
  A row of \<^verbatim>\<open>strategy_simulations.csv\<close>, with the columns \<^verbatim>\<open>run_id\<close>, \<^verbatim>\<open>strategy\<close> and
  \<^verbatim>\<open>score\<close> that \<^verbatim>\<open>simulate_all_strategies.py\<close> writes.
\<close>

record run_record =
  run_id :: int
  strategy :: string
  run_score :: int

text \<open>
  \<^verbatim>\<open>df.groupby("strategy")["score"]\<close>: one group for each strategy, the groups in the
  sorted order of their keys, each holding the scores of its rows.
\<close>

definition group_keys :: "run_record list \<Rightarrow> string list" where
  "group_keys df = sort (remdups (map strategy df))"

definition group_scores :: "run_record list \<Rightarrow> string \<Rightarrow> int list" where
  "group_scores df s = map run_score (filter (\<lambda>r. strategy r = s) df)"

text \<open>
  pandas computes the mean of a group in 64-bit floating point: it adds the scores of
  the group and divides by their number. Which float the additions give depends on
  their order and on how their rounding errors are compensated, which the script does
  not fix; so the float mean is a parameter \<open>mean64\<close> of the aggregator, a function from
  the scores of a group to the float returned, a float being the rational it denotes. A
  group is never empty, since its key comes from one of its rows.

  The columns kept are the count and the mean: the order and the choice of the best
  strategy read \<^verbatim>\<open>mean_score\<close> alone, and the median, the quantiles, the standard
  deviation, the minimum and the maximum take no part in them.
\<close>

record summary_row =
  runs :: nat
  mean_score :: rat

definition agg :: "(int list \<Rightarrow> rat) \<Rightarrow> int list \<Rightarrow> summary_row" where
  "agg mean64 xs = \<lparr> runs = length xs, mean_score = mean64 xs \<rparr>"

text \<open>
  \<^verbatim>\<open>.agg(...).sort_values("mean_score")\<close>: the rows, indexed by strategy, by ascending
  mean. Rows of equal mean keep the order of their keys here.
\<close>

definition summary :: "(int list \<Rightarrow> rat) \<Rightarrow> run_record list \<Rightarrow> (string \<times> summary_row) list" where
  "summary mean64 df =
     sort_key (\<lambda>(s, row). mean_score row)
       (map (\<lambda>s. (s, agg mean64 (group_scores df s))) (group_keys df))"

text \<open>\<^verbatim>\<open>best = summary.index[0]\<close>, which raises on an empty frame.\<close>

definition best :: "(int list \<Rightarrow> rat) \<Rightarrow> run_record list \<Rightarrow> error + string" where
  "best mean64 df = (case summary mean64 df of [] \<Rightarrow> Inl IndexError | (s, row) # _ \<Rightarrow> Inr s)"

subsection \<open>Rounding to a 64-bit float\<close>

text \<open>
  The round-to-nearest, ties-to-even rounding of IEEE 754 binary64, on the rationals:
  a number \<open>x \<noteq> 0\<close> with \<open>2\<^sup>k \<le> |x| < 2\<^sup>k\<^sup>+\<^sup>1\<close> goes to the nearest multiple of
  \<open>2\<^sup>k\<^sup>-\<^sup>5\<^sup>2\<close>, the one with an even multiplier when two are as near. Overflow and
  subnormal numbers are left out: they arise only for magnitudes near \<open>2\<^sup>1\<^sup>0\<^sup>2\<^sup>4\<close> and
  above, or below \<open>2\<^sup>-\<^sup>1\<^sup>0\<^sup>2\<^sup>2\<close>.
\<close>

definition round_half_even :: "rat \<Rightarrow> int" where
  "round_half_even t =
     (let f = \<lfloor>t\<rfloor>; r = t - of_int f
      in if r < 1 / 2 then f else if 1 / 2 < r then f + 1 else if even f then f else f + 1)"

text \<open>For \<open>a > 0\<close>, the integer \<open>k\<close> with \<open>2\<^sup>k \<le> a < 2\<^sup>k\<^sup>+\<^sup>1\<close>.\<close>

definition flog2 :: "rat \<Rightarrow> int" where
  "flog2 a = (let (p, q) = quotient_of a; k = bitlen p - bitlen q
              in if 2 powi k \<le> a then k else k - 1)"

definition fl64 :: "rat \<Rightarrow> rat" where
  "fl64 x =
     (if x = 0 then 0
      else let e = flog2 \<bar>x\<bar> - 52;
               m = round_half_even (\<bar>x\<bar> / 2 powi e)
           in sgn x * of_int m * 2 powi e)"

text \<open>
  The mean in exact arithmetic, and the float nearest to it. While the magnitudes of
  the scores of a group sum to at most \<open>2\<^sup>5\<^sup>3\<close>, every partial sum of them is an integer
  that binary64 holds exactly, whatever the order of the additions, and the division is
  rounded once: on such a group the float mean is \<open>ieee_mean\<close>. On a group of one score
  it is \<open>ieee_mean\<close> too: the score is converted to a float and divided by 1.
\<close>

definition exact_mean :: "int list \<Rightarrow> rat" where
  "exact_mean xs = of_int (sum_list xs) / of_nat (length xs)"

definition ieee_mean :: "int list \<Rightarrow> rat" where
  "ieee_mean xs = fl64 (exact_mean xs)"

definition exact_range :: "int list \<Rightarrow> bool" where
  "exact_range xs \<longleftrightarrow> sum_list (map abs xs) \<le> 2 ^ 53"

section \<open>Boards and a corpus used as concrete inputs\<close>

text \<open>The board of \<^verbatim>\<open>Game()\<close>, nine tiles, all open, no roll made.\<close>

definition fresh9 :: Game where
  "fresh9 = \<lparr> tiles_max = 9, single_die_rule = True,
      tiles = [(1, True), (2, True), (3, True), (4, True), (5, True), (6, True),
               (7, True), (8, True), (9, True)],
      over = False, last_roll = None \<rparr>"

text \<open>The board of \<^verbatim>\<open>Game(tiles_max=10)\<close>, and the same board once 7, 8 and 9 are closed.\<close>

definition fresh10 :: Game where
  "fresh10 = \<lparr> tiles_max = 10, single_die_rule = True,
      tiles = [(1, True), (2, True), (3, True), (4, True), (5, True), (6, True),
               (7, True), (8, True), (9, True), (10, True)],
      over = False, last_roll = None \<rparr>"

definition high_closed10 :: Game where
  "high_closed10 = \<lparr> tiles_max = 10, single_die_rule = True,
      tiles = [(1, True), (2, True), (3, True), (4, True), (5, True), (6, True),
               (7, False), (8, False), (9, False), (10, True)],
      over = False, last_roll = None \<rparr>"

text \<open>The board of the test \<^verbatim>\<open>test_forced_roll_still_respects_legality_check\<close>: only 1 and 9 open.\<close>

definition only_1_9 :: Game where
  "only_1_9 = \<lparr> tiles_max = 9, single_die_rule = True,
      tiles = [(1, True), (2, False), (3, False), (4, False), (5, False), (6, False),
               (7, False), (8, False), (9, True)],
      over = False, last_roll = None \<rparr>"

text \<open>A corpus of three runs of two strategies.\<close>

definition corpus3 :: "run_record list" where
  "corpus3 = [\<lparr>run_id = 0, strategy = ''random'', run_score = 20\<rparr>,
              \<lparr>run_id = 1, strategy = ''greedy'', run_score = 10\<rparr>,
              \<lparr>run_id = 2, strategy = ''greedy'', run_score = 13\<rparr>]"

text \<open>A corpus of three strategies, and one of two strategies with scores at \<open>2\<^sup>5\<^sup>3\<close>.\<close>

definition corpus_third :: "run_record list" where
  "corpus_third = [\<lparr>run_id = 0, strategy = ''b'', run_score = 1\<rparr>,
                   \<lparr>run_id = 1, strategy = ''z'', run_score = 5\<rparr>,
                   \<lparr>run_id = 2, strategy = ''a'', run_score = 0\<rparr>]"

definition corpus_tie :: "run_record list" where
  "corpus_tie = [\<lparr>run_id = 0, strategy = ''a'', run_score = 2 ^ 53 + 1\<rparr>,
                 \<lparr>run_id = 1, strategy = ''b'', run_score = 2 ^ 53\<rparr>]"

section \<open>The enumerator returns the subsets that sum to the target\<close>

lemma combinations_strict_sorted:
  "sorted_wrt (<) (xs :: int list) \<Longrightarrow>
   set (combinations xs k) = {ys. sorted_wrt (<) ys \<and> set ys \<subseteq> set xs \<and> length ys = k}"
proof (induction xs k rule: combinations.induct)
  case (1 xs)
  then show ?case by auto
next
  case (2 k)
  then show ?case by auto
next
  case (3 x xs k)
  from "3.prems" have sx: "sorted_wrt (<) xs" and lt: "\<forall>y\<in>set xs. x < y"
    by simp_all
  have ih1: "set (combinations xs k) =
      {ys. sorted_wrt (<) ys \<and> set ys \<subseteq> set xs \<and> length ys = k}"
    using "3.IH"(1) sx by simp
  have ih2: "set (combinations xs (Suc k)) =
      {ys. sorted_wrt (<) ys \<and> set ys \<subseteq> set xs \<and> length ys = Suc k}"
    using "3.IH"(2) sx by simp
  show ?case
  proof (rule set_eqI)
    fix ys :: "int list"
    show "ys \<in> set (combinations (x # xs) (Suc k)) \<longleftrightarrow>
          ys \<in> {ys. sorted_wrt (<) ys \<and> set ys \<subseteq> set (x # xs) \<and> length ys = Suc k}"
    proof (cases ys)
      case Nil
      then show ?thesis using ih2 by auto
    next
      case (Cons y zs)
      show ?thesis
      proof (cases "y = x")
        case True
        have "x # zs \<notin> set (combinations xs (Suc k))"
          using ih2 lt by auto
        moreover have "sorted_wrt (<) (x # zs) \<and> set zs \<subseteq> insert x (set xs)
            \<longleftrightarrow> sorted_wrt (<) zs \<and> set zs \<subseteq> set xs \<and> (\<forall>z\<in>set zs. x < z)"
          by auto
        ultimately show ?thesis
          using Cons True ih1 lt by auto
      next
        case False
        have "sorted_wrt (<) (y # zs) \<and> y \<in> insert x (set xs) \<and> set zs \<subseteq> insert x (set xs)
            \<longleftrightarrow> sorted_wrt (<) (y # zs) \<and> y \<in> set xs \<and> set zs \<subseteq> set xs"
          using False lt by fastforce
        then show ?thesis
          using Cons False ih2 by auto
      qed
    qed
  qed
qed

lemma strict_sorted_length_le:
  "sorted_wrt (<) (ys :: int list) \<Longrightarrow> set ys \<subseteq> set xs \<Longrightarrow> length ys \<le> length xs"
proof -
  assume a: "sorted_wrt (<) ys" and b: "set ys \<subseteq> set xs"
  have "distinct ys" using a by (simp add: strict_sorted_iff)
  then have "length ys = card (set ys)" by (simp add: distinct_card)
  also have "\<dots> \<le> card (set xs)" using b by (simp add: card_mono)
  also have "\<dots> \<le> length xs" by (rule card_length)
  finally show ?thesis .
qed

lemma combos_out_set:
  assumes "sorted_wrt (<) (xs :: int list)"
  shows "set (concat (map (\<lambda>k. filter (\<lambda>c. sum_list c = target) (combinations xs k))
                          [1 ..< length xs + 1]))
         = {ys. sorted_wrt (<) ys \<and> set ys \<subseteq> set xs \<and> ys \<noteq> [] \<and> sum_list ys = target}"
  (is "?L = ?R")
proof (rule set_eqI)
  fix ys :: "int list"
  have "ys \<in> ?L \<longleftrightarrow>
        (\<exists>k. 1 \<le> k \<and> k \<le> length xs \<and> ys \<in> set (combinations xs k) \<and> sum_list ys = target)"
    by auto
  also have "\<dots> \<longleftrightarrow> (1 \<le> length ys \<and> length ys \<le> length xs \<and>
        sorted_wrt (<) ys \<and> set ys \<subseteq> set xs \<and> sum_list ys = target)"
    by (auto simp: combinations_strict_sorted [OF assms])
  also have "\<dots> \<longleftrightarrow> ys \<in> ?R"
    using strict_sorted_length_le [of ys xs] by (cases ys) auto
  finally show "ys \<in> ?L \<longleftrightarrow> ys \<in> ?R" .
qed

lemma combos_that_sum_set:
  assumes "distinct nums"
  shows "set (combos_that_sum nums target)
         = {ys. sorted_wrt (<) ys \<and> set ys \<subseteq> set nums \<and> ys \<noteq> [] \<and> sum_list ys = target}"
proof -
  have s: "sorted_wrt (<) (sort nums)"
    using assms by (simp add: strict_sorted_iff)
  have "set (combos_that_sum nums target)
      = set (concat (map (\<lambda>k. filter (\<lambda>c. sum_list c = target) (combinations (sort nums) k))
                          [1 ..< length (sort nums) + 1]))"
    unfolding combos_that_sum_def Let_def by (rule set_sorted_list_of_set) (rule finite_set)
  also have "\<dots> = {ys. sorted_wrt (<) ys \<and> set ys \<subseteq> set (sort nums) \<and> ys \<noteq> []
                          \<and> sum_list ys = target}"
    by (rule combos_out_set [OF s])
  finally show ?thesis by simp
qed

lemma combos_that_sum_sorted:
  "sorted_wrt (<) (combos_that_sum nums target)"
  unfolding combos_that_sum_def Let_def by simp

lemma strict_sorted_subsets:
  assumes "finite A"
  shows "{ys :: int list. sorted_wrt (<) ys \<and> set ys \<subseteq> A \<and> ys \<noteq> [] \<and> sum_list ys = t}
         = sorted_list_of_set ` {S. S \<subseteq> A \<and> S \<noteq> {} \<and> \<Sum>S = t}"
  (is "?L = ?R")
proof (rule set_eqI)
  fix ys :: "int list"
  show "ys \<in> ?L \<longleftrightarrow> ys \<in> ?R"
  proof
    assume "ys \<in> ?L"
    then have st: "sorted_wrt (<) ys" and sub: "set ys \<subseteq> A" and ne: "ys \<noteq> []"
      and sm: "sum_list ys = t" by auto
    have d: "distinct ys" using st by (simp add: strict_sorted_iff)
    have "sorted_list_of_set (set ys) = ys"
      using st by (simp add: sorted_list_of_set.idem_if_sorted_distinct strict_sorted_iff)
    moreover have "\<Sum>(set ys) = t"
      using d sm sum_list_distinct_conv_sum_set [of ys "\<lambda>x. x"] by simp
    ultimately show "ys \<in> ?R"
      using sub ne by (intro image_eqI [where x = "set ys"]) auto
  next
    assume "ys \<in> ?R"
    then obtain S where S: "S \<subseteq> A" "S \<noteq> {}" "\<Sum>S = t" and ys: "ys = sorted_list_of_set S"
      by auto
    have f: "finite S" using S(1) assms by (rule finite_subset)
    have "sum_list ys = \<Sum>(set ys)"
      using f ys sum_list_distinct_conv_sum_set [of ys "\<lambda>x. x"] by simp
    then show "ys \<in> ?L"
      using f S ys by auto
  qed
qed

lemma distinct_open_tiles: "dict_ok g \<Longrightarrow> distinct (open_tiles g)"
  unfolding dict_ok_def open_tiles_def by (simp add: distinct_map_filter)

text \<open>
  Claim C1. For a list \<open>nums\<close> of distinct integers and any target, the tuples that
  \<open>combos_that_sum\<close> returns are exactly the non-empty subsets of \<open>nums\<close> whose elements sum
  to the target, each written as its ascending list; every tuple is strictly ascending,
  no tuple occurs twice, and the list is sorted in the lexicographic order of tuples.
  \<open>available_moves\<close> is this list for the open tiles. (The tiles need not be positive.)
\<close>

theorem combos_that_sum_exact:
  assumes "distinct nums"
  shows "set (combos_that_sum nums target)
           = sorted_list_of_set ` {S. S \<subseteq> set nums \<and> S \<noteq> {} \<and> \<Sum>S = target}
         \<and> (\<forall>c \<in> set (combos_that_sum nums target). sorted_wrt (<) c)
         \<and> distinct (combos_that_sum nums target)
         \<and> sorted (combos_that_sum nums target)
         \<and> (open_tiles g = nums \<longrightarrow> available_moves g target = combos_that_sum nums target)"
proof -
  have "set (combos_that_sum nums target)
      = sorted_list_of_set ` {S. S \<subseteq> set nums \<and> S \<noteq> {} \<and> \<Sum>S = target}"
    using combos_that_sum_set [OF assms] strict_sorted_subsets [of "set nums" target] by simp
  moreover have "\<forall>c \<in> set (combos_that_sum nums target). sorted_wrt (<) c"
    using combos_that_sum_set [OF assms] by simp
  moreover have "distinct (combos_that_sum nums target)" "sorted (combos_that_sum nums target)"
    using combos_that_sum_sorted [of nums target] by (simp_all add: strict_sorted_iff)
  ultimately show ?thesis
    by (simp add: available_moves_def)
qed

theorem combos_that_sum_exact_witness:
  "distinct [1, 2, 3, 4, 5 :: int]
   \<and> combos_that_sum [1, 2, 3, 4, 5] 5 = [[1, 4], [2, 3], [5]]
   \<and> set [[1, 4], [2, 3], [5]]
       = sorted_list_of_set ` {S. S \<subseteq> set [1, 2, 3, 4, 5 :: int] \<and> S \<noteq> {} \<and> \<Sum>S = 5}
   \<and> open_tiles fresh9 = [1, 2, 3, 4, 5, 6, 7, 8, 9]
   \<and> available_moves fresh9 9 = combos_that_sum [1, 2, 3, 4, 5, 6, 7, 8, 9] 9
   \<and> combos_that_sum [1, 2, 3, 4, 5, 6, 7, 8, 9] 9
       = [[1, 2, 6], [1, 3, 5], [1, 8], [2, 3, 4], [2, 7], [3, 6], [4, 5], [9]]"
proof -
  have d: "distinct [1, 2, 3, 4, 5 :: int]" by simp
  have e: "combos_that_sum [1, 2, 3, 4, 5] 5 = [[1, 4], [2, 3], [5]]" by code_simp
  have d9: "distinct [1, 2, 3, 4, 5, 6, 7, 8, 9 :: int]" by simp
  have o9: "open_tiles fresh9 = [1, 2, 3, 4, 5, 6, 7, 8, 9]"
    by (simp add: open_tiles_def fresh9_def)
  have e9: "combos_that_sum [1, 2, 3, 4, 5, 6, 7, 8, 9] 9
       = [[1, 2, 6], [1, 3, 5], [1, 8], [2, 3, 4], [2, 7], [3, 6], [4, 5], [9]]"
    by code_simp
  show ?thesis
    using d e o9 e9 combos_that_sum_exact [OF d, of 5]
      combos_that_sum_exact [OF d9, of 9 fresh9]
    by simp
qed

section \<open>The engine\<close>

lemma new_game_fresh9: "new_game 9 True = Inr fresh9"
  by (simp add: new_game_def fresh9_def upto_rec1)

lemma new_game_fresh10: "new_game 10 True = Inr fresh10"
  by (simp add: new_game_def fresh10_def upto_rec1)

lemma reach10: "calls fresh10 [Roll (Some 7) (1, 1), Move [7], Roll (Some 8) (1, 1), Move [8],
                        Roll (Some 9) (1, 1), Move [9]] = high_closed10"
  by code_simp

lemma map_of_close_tiles:
  "map_of (close_tiles chosen ts) = (\<lambda>k. if k \<in> set chosen then Some False else map_of ts k)"
  unfolding close_tiles_def
proof (induction chosen arbitrary: ts)
  case Nil
  then show ?case by simp
next
  case (Cons t chosen)
  show ?case
    by (simp add: Cons.IH update_conv' fun_eq_iff)
qed

lemma distinct_close_tiles:
  "distinct (map fst ts) \<Longrightarrow> distinct (map fst (close_tiles chosen ts))"
  unfolding close_tiles_def
  by (induction chosen arbitrary: ts) (simp_all add: distinct_update)

lemma open_tiles_iff:
  "dict_ok g \<Longrightarrow> t \<in> set (open_tiles g) \<longleftrightarrow> map_of (tiles g) t = Some True"
  unfolding dict_ok_def open_tiles_def by (auto simp: image_iff)

lemma move_cases:
  "move g chosen = (False, g) \<or>
   (\<not> over g \<and> (\<exists>r. last_roll g = Some r \<and> sort chosen \<in> set (available_moves g r)) \<and>
    move g chosen =
      (True, g\<lparr>tiles := close_tiles (sort chosen) (tiles g), last_roll := None,
               over := (open_tiles (g\<lparr>tiles := close_tiles (sort chosen) (tiles g)\<rparr>) = [])\<rparr>))"
  unfolding move_def Let_def open_tiles_def by auto

text \<open>
  Claim C2. When \<open>move g chosen\<close> returns success (so a roll was pending), in the game
  it leaves every tile of \<open>chosen\<close> is closed (its entry is \<open>False\<close>, and, the keys of
  the dictionary being distinct, it is not among the open tiles), \<open>last_roll\<close> is \<open>None\<close>, and
  \<open>over\<close> holds exactly when no tile is open.
\<close>

theorem move_success:
  assumes "move g chosen = (True, g')"
  shows "(\<forall>t \<in> set chosen. map_of (tiles g') t = Some False)
       \<and> (dict_ok g \<longrightarrow> (\<forall>t \<in> set chosen. t \<notin> set (open_tiles g')))
       \<and> last_roll g' = None
       \<and> (over g' \<longleftrightarrow> open_tiles g' = [])"
proof -
  from move_cases [of g chosen] assms
  have g': "g' = g\<lparr>tiles := close_tiles (sort chosen) (tiles g), last_roll := None,
               over := (open_tiles (g\<lparr>tiles := close_tiles (sort chosen) (tiles g)\<rparr>) = [])\<rparr>"
    by auto
  have t: "tiles g' = close_tiles (sort chosen) (tiles g)" by (simp add: g')
  have a: "\<forall>t \<in> set chosen. map_of (tiles g') t = Some False"
    by (simp add: t map_of_close_tiles)
  have b: "dict_ok g \<longrightarrow> (\<forall>t \<in> set chosen. t \<notin> set (open_tiles g'))"
  proof
    assume "dict_ok g"
    then have "dict_ok g'" by (simp add: dict_ok_def t distinct_close_tiles)
    then show "\<forall>t \<in> set chosen. t \<notin> set (open_tiles g')"
      using a by (simp add: open_tiles_iff)
  qed
  have c: "last_roll g' = None" by (simp add: g')
  have d: "over g' \<longleftrightarrow> open_tiles g' = []" by (simp add: g' open_tiles_def)
  from a b c d show ?thesis by blast
qed

theorem move_success_witness:
  "move (fresh9\<lparr>last_roll := Some 9\<rparr>) [5, 4]
     = (True, fresh9\<lparr>tiles := [(1, True), (2, True), (3, True), (4, False), (5, False),
                                 (6, True), (7, True), (8, True), (9, True)]\<rparr>)
   \<and> map_of (tiles (snd (move (fresh9\<lparr>last_roll := Some 9\<rparr>) [5, 4]))) 5 = Some False
   \<and> map_of (tiles (snd (move (fresh9\<lparr>last_roll := Some 9\<rparr>) [5, 4]))) 4 = Some False
   \<and> 5 \<notin> set (open_tiles (snd (move (fresh9\<lparr>last_roll := Some 9\<rparr>) [5, 4])))
   \<and> last_roll (snd (move (fresh9\<lparr>last_roll := Some 9\<rparr>) [5, 4])) = None
   \<and> \<not> over (snd (move (fresh9\<lparr>last_roll := Some 9\<rparr>) [5, 4]))"
proof -
  have e: "move (fresh9\<lparr>last_roll := Some 9\<rparr>) [5, 4]
     = (True, fresh9\<lparr>tiles := [(1, True), (2, True), (3, True), (4, False), (5, False),
                                 (6, True), (7, True), (8, True), (9, True)]\<rparr>)"
    by code_simp
  have d: "dict_ok (fresh9\<lparr>last_roll := Some 9\<rparr>)"
    by (simp add: dict_ok_def fresh9_def)
  show ?thesis
    using move_success [OF e] d e by (simp add: open_tiles_def fresh9_def)
qed

text \<open>
  Claim C3. \<open>move\<close> is a total function with no error result: no statement of the
  method raises on a list of integers. It returns failure whenever the game is over, or
  no roll is pending, or the sorted tuple of \<open>chosen\<close> is not among the available moves
  for the pending roll; and whenever it returns failure the game it leaves is the game
  it was given (tiles, \<open>over\<close> and \<open>last_roll\<close> included).
\<close>

theorem move_failure:
  "((over g \<or> last_roll g = None \<or>
      (\<exists>r. last_roll g = Some r \<and> sort chosen \<notin> set (available_moves g r)))
     \<longrightarrow> fst (move g chosen) = False)
   \<and> (fst (move g chosen) = False \<longrightarrow> snd (move g chosen) = g)"
  unfolding move_def Let_def by auto

theorem move_failure_witness:
  "last_roll fresh9 = None
   \<and> fst (move fresh9 [1]) = False
   \<and> snd (move fresh9 [1]) = fresh9
   \<and> last_roll (fresh9\<lparr>last_roll := Some 9\<rparr>) = Some 9
   \<and> sort [9 :: int, 1] \<notin> set (available_moves (fresh9\<lparr>last_roll := Some 9\<rparr>) 9)
   \<and> fst (move (fresh9\<lparr>last_roll := Some 9\<rparr>) [9, 1]) = False
   \<and> snd (move (fresh9\<lparr>last_roll := Some 9\<rparr>) [9, 1]) = fresh9\<lparr>last_roll := Some 9\<rparr>"
proof -
  have n: "last_roll fresh9 = None" by (simp add: fresh9_def)
  have a: "sort [9 :: int, 1] \<notin> set (available_moves (fresh9\<lparr>last_roll := Some 9\<rparr>) 9)"
    by code_simp
  show ?thesis
    using n a move_failure [of fresh9 "[1]"]
      move_failure [of "fresh9\<lparr>last_roll := Some 9\<rparr>" "[9, 1]"]
    by simp
qed

lemma roll_over: "over g \<Longrightarrow> roll g forced d = ((case last_roll g of Some r \<Rightarrow> r | None \<Rightarrow> 0), g)"
  by (simp add: roll_def)

lemma move_over: "over g \<Longrightarrow> move g chosen = (False, g)"
  by (simp add: move_def)

lemma calls_over: "over g \<Longrightarrow> calls g cs = g"
  unfolding calls_def
  by (induction cs) (simp_all add: call_result_def roll_over move_over split: call.splits)

text \<open>
  Claim C4. A roll whose value has no legal move leaves \<open>over\<close> set. Once \<open>over\<close> is
  set, \<open>roll\<close> returns the last recorded roll (0 when there is none) and \<open>move\<close> returns
  failure, each leaving the game as it was; so does any sequence of such calls, and
  \<open>over\<close> is never unset.
\<close>

theorem over_absorbing:
  "(available_moves g (fst (roll g forced d)) = [] \<longrightarrow> over (snd (roll g forced d)))
   \<and> (over g \<longrightarrow>
        roll g forced d = ((case last_roll g of Some r \<Rightarrow> r | None \<Rightarrow> 0), g)
        \<and> move g chosen = (False, g)
        \<and> calls g cs = g)"
  using roll_over [of g forced d] move_over [of g chosen] calls_over [of g cs]
  by (auto simp: roll_def Let_def available_moves_def open_tiles_def)

theorem over_absorbing_witness:
  "available_moves only_1_9 (fst (roll only_1_9 (Some 3) (1, 1))) = []
   \<and> over (snd (roll only_1_9 (Some 3) (1, 1)))
   \<and> snd (roll only_1_9 (Some 3) (1, 1)) = only_1_9\<lparr>over := True, last_roll := Some 3\<rparr>
   \<and> roll (only_1_9\<lparr>over := True, last_roll := Some 3\<rparr>) None (4, 5)
       = (3, only_1_9\<lparr>over := True, last_roll := Some 3\<rparr>)
   \<and> move (only_1_9\<lparr>over := True, last_roll := Some 3\<rparr>) [1]
       = (False, only_1_9\<lparr>over := True, last_roll := Some 3\<rparr>)
   \<and> calls (only_1_9\<lparr>over := True, last_roll := Some 3\<rparr>) [Roll None (4, 5), Move [1, 9]]
       = only_1_9\<lparr>over := True, last_roll := Some 3\<rparr>"
proof -
  have r: "roll only_1_9 (Some 3) (1, 1) = (3, only_1_9\<lparr>over := True, last_roll := Some 3\<rparr>)"
    by code_simp
  have a: "available_moves only_1_9 3 = []"
    by code_simp
  have o: "over (only_1_9\<lparr>over := True, last_roll := Some 3\<rparr>)"
    by simp
  show ?thesis
    using r a o
      over_absorbing [of only_1_9 "Some 3" "(1, 1)"]
      over_absorbing [of "only_1_9\<lparr>over := True, last_roll := Some 3\<rparr>" None "(4, 5)" "[1]"
                         "[Roll None (4, 5), Move [1, 9]]"]
    by simp
qed

lemma board_ok_keys:
  assumes "board_ok g"
  shows "dict_ok g" and "set (map fst (tiles g)) = {1 .. tiles_max g}"
  using assms unfolding board_ok_def dict_ok_def by simp_all

lemma tiles_get_key:
  "t \<in> set (map fst (tiles g)) \<Longrightarrow> (\<not> tiles_get g t) = (map_of (tiles g) t = Some False)"
proof -
  assume "t \<in> set (map fst (tiles g))"
  then obtain b where "map_of (tiles g) t = Some b"
    by (metis map_of_eq_None_iff not_None_eq set_map)
  then show ?thesis by (simp add: tiles_get_def)
qed

text \<open>
  Claim C5, as the code has it. On a board whose keys are \<open>1..tiles_max\<close>,
  \<open>can_use_single_die\<close> returns true exactly when the single-die rule is enabled and every
  tile of the board with a value above 6 and at most 9 is closed: the tiles it reads are
  7, 8 and 9. On a board of at most nine tiles these are all the tiles above 6. It
  returns false whenever the rule is disabled.
\<close>

theorem can_use_single_die_789:
  assumes "board_ok g"
  shows "(can_use_single_die g \<longleftrightarrow>
            single_die_rule g \<and>
            (\<forall>t \<in> set (map fst (tiles g)). 6 < t \<and> t \<le> 9 \<longrightarrow> map_of (tiles g) t = Some False))
       \<and> (tiles_max g \<le> 9 \<longrightarrow>
            (can_use_single_die g \<longleftrightarrow>
               single_die_rule g \<and>
               (\<forall>t \<in> set (map fst (tiles g)). 6 < t \<longrightarrow> map_of (tiles g) t = Some False)))
       \<and> (\<not> single_die_rule g \<longrightarrow> \<not> can_use_single_die g)"
proof -
  have keys: "set (map fst (tiles g)) = {1 .. tiles_max g}"
    using board_ok_keys(2) [OF assms] .
  have closed: "\<And>t. t \<in> {1 .. tiles_max g} \<Longrightarrow>
      (\<not> tiles_get g t) = (map_of (tiles g) t = Some False)"
    using tiles_get_key [of _ g] keys by blast
  have code: "can_use_single_die g \<longleftrightarrow>
      single_die_rule g \<and> (\<forall>i \<in> {7, 8, 9}. i \<le> tiles_max g \<longrightarrow> \<not> tiles_get g i)"
    unfolding can_use_single_die_def Let_def by (auto simp: list_all_iff)
  have range: "\<And>t::int. (6 < t \<and> t \<le> 9) = (t \<in> {7, 8, 9})"
    by auto
  have a: "can_use_single_die g \<longleftrightarrow>
      single_die_rule g \<and>
      (\<forall>t \<in> set (map fst (tiles g)). 6 < t \<and> t \<le> 9 \<longrightarrow> map_of (tiles g) t = Some False)"
    unfolding code keys range using closed by auto
  have b: "tiles_max g \<le> 9 \<longrightarrow>
      (\<forall>t \<in> set (map fst (tiles g)). (6 < t \<and> t \<le> 9) = (6 < t))"
    unfolding keys by auto
  have c: "\<not> single_die_rule g \<longrightarrow> \<not> can_use_single_die g"
    by (simp add: can_use_single_die_def)
  from a b c show ?thesis by auto
qed

theorem can_use_single_die_789_witness:
  "board_ok high_closed10
   \<and> can_use_single_die high_closed10
   \<and> map_of (tiles high_closed10) 7 = Some False
   \<and> board_ok fresh9 \<and> tiles_max fresh9 \<le> 9
   \<and> \<not> can_use_single_die fresh9
   \<and> \<not> single_die_rule (fresh9\<lparr>single_die_rule := False\<rparr>)
   \<and> \<not> can_use_single_die (fresh9\<lparr>single_die_rule := False\<rparr>)"
proof -
  have b10: "board_ok high_closed10"
    by (simp add: board_ok_def high_closed10_def upto_rec1)
  have b9: "board_ok fresh9" "board_ok (fresh9\<lparr>single_die_rule := False\<rparr>)"
    by (simp_all add: board_ok_def fresh9_def upto_rec1)
  have c10: "can_use_single_die high_closed10"
    by (simp add: can_use_single_die_def high_closed10_def tiles_get_def)
  have t: "map_of (tiles fresh9) 7 = Some True" "tiles_max fresh9 \<le> 9"
      "7 \<in> set (map fst (tiles fresh9))"
    by (simp_all add: fresh9_def)
  have n9: "\<not> can_use_single_die fresh9"
    using can_use_single_die_789 [OF b9(1)] t by fastforce
  show ?thesis
    using b10 b9 c10 t n9 can_use_single_die_789 [OF b10]
      can_use_single_die_789 [OF b9(2)]
    by (simp add: high_closed10_def)
qed

text \<open>
  The claim as stated fails on a board of ten tiles: after the forced rolls 7, 8, 9,
  each answered by closing that tile, tile 10 is on the board, above 6 and open, and
  \<open>can_use_single_die\<close> returns true.
\<close>

theorem can_use_single_die_counterexample:
  "new_game 10 True = Inr fresh10
   \<and> calls fresh10 [Roll (Some 7) (1, 1), Move [7], Roll (Some 8) (1, 1), Move [8],
                    Roll (Some 9) (1, 1), Move [9]] = high_closed10
   \<and> board_ok high_closed10
   \<and> single_die_rule high_closed10
   \<and> can_use_single_die high_closed10
   \<and> 10 \<in> set (map fst (tiles high_closed10)) \<and> (6 :: int) < 10
   \<and> map_of (tiles high_closed10) 10 = Some True"
proof -
  have "board_ok high_closed10" by (simp add: board_ok_def high_closed10_def upto_rec1)
  moreover have "can_use_single_die high_closed10"
    by (simp add: can_use_single_die_def high_closed10_def tiles_get_def)
  ultimately show ?thesis
    using new_game_fresh10 reach10 by (simp add: high_closed10_def)
qed

lemma available_moves_empty_iff:
  assumes "dict_ok g"
  shows "available_moves g v = [] \<longleftrightarrow> \<not> (\<exists>S. S \<subseteq> set (open_tiles g) \<and> S \<noteq> {} \<and> \<Sum>S = v)"
proof -
  have "available_moves g v = [] \<longleftrightarrow> set (available_moves g v) = {}" by simp
  also have "\<dots> \<longleftrightarrow> sorted_list_of_set ` {S. S \<subseteq> set (open_tiles g) \<and> S \<noteq> {} \<and> \<Sum>S = v} = {}"
    unfolding available_moves_def
    using combos_that_sum_set [OF distinct_open_tiles [OF assms], of v]
      strict_sorted_subsets [of "set (open_tiles g)" v] by simp
  also have "\<dots> \<longleftrightarrow> \<not> (\<exists>S. S \<subseteq> set (open_tiles g) \<and> S \<noteq> {} \<and> \<Sum>S = v)"
    by auto
  finally show ?thesis .
qed

lemma no_subset_nonpositive:
  assumes "\<forall>t \<in> set (open_tiles g). 0 < t" "v \<le> 0"
  shows "\<not> (\<exists>S. S \<subseteq> set (open_tiles g) \<and> S \<noteq> {} \<and> \<Sum>S = v)"
proof
  assume "\<exists>S. S \<subseteq> set (open_tiles g) \<and> S \<noteq> {} \<and> \<Sum>S = v"
  then obtain S where S: "S \<subseteq> set (open_tiles g)" "S \<noteq> {}" "\<Sum>S = v" by blast
  have "finite S" using S(1) by (rule finite_subset) simp
  then have "0 < \<Sum>S" using S(1,2) assms(1) by (intro sum_pos) auto
  then show False using S(3) assms(2) by simp
qed

text \<open>
  Claim C10. On a game that is not over (the keys of its dictionary distinct),
  \<open>roll\<close> with a forced value \<open>v\<close> checks no range: for every integer \<open>v\<close> it returns \<open>v\<close>,
  sets \<open>last_roll\<close> to \<open>v\<close>, leaves the tiles alone, and sets \<open>over\<close> exactly when no
  non-empty subset of the open tiles sums to \<open>v\<close>. When the open tiles are positive, as on
  every board, a forced \<open>v \<le> 0\<close> ends the game.
\<close>

theorem roll_forced_unvalidated:
  assumes "\<not> over g" and "dict_ok g"
  shows "fst (roll g (Some v) d) = v
       \<and> last_roll (snd (roll g (Some v) d)) = Some v
       \<and> tiles (snd (roll g (Some v) d)) = tiles g
       \<and> (over (snd (roll g (Some v) d)) \<longleftrightarrow>
            \<not> (\<exists>S. S \<subseteq> set (open_tiles g) \<and> S \<noteq> {} \<and> \<Sum>S = v))
       \<and> ((\<forall>t \<in> set (open_tiles g). 0 < t) \<and> v \<le> 0 \<longrightarrow> over (snd (roll g (Some v) d)))"
proof -
  have am: "available_moves (g\<lparr>last_roll := Some v\<rparr>) v = available_moves g v"
    by (simp add: available_moves_def open_tiles_def)
  have r: "roll g (Some v) d =
      (v, if available_moves g v = [] then g\<lparr>last_roll := Some v, over := True\<rparr>
          else g\<lparr>last_roll := Some v\<rparr>)"
    using assms(1) by (simp add: roll_def Let_def am)
  have o: "over (snd (roll g (Some v) d)) \<longleftrightarrow> available_moves g v = []"
    using assms(1) by (simp add: r)
  show ?thesis
    using o available_moves_empty_iff [OF assms(2), of v] no_subset_nonpositive [of g v]
    by (simp add: r)
qed

theorem roll_forced_unvalidated_witness:
  "\<not> over fresh9 \<and> dict_ok fresh9
   \<and> roll fresh9 (Some 0) (1, 1) = (0, fresh9\<lparr>over := True, last_roll := Some 0\<rparr>)
   \<and> over (snd (roll fresh9 (Some 0) (1, 1)))
   \<and> roll fresh9 (Some 13) (1, 1) = (13, fresh9\<lparr>last_roll := Some 13\<rparr>)
   \<and> {4, 9} \<subseteq> set (open_tiles fresh9) \<and> \<Sum>{4, 9 :: int} = 13
   \<and> \<not> over (snd (roll fresh9 (Some 13) (1, 1)))"
proof -
  have n: "\<not> over fresh9" and d: "dict_ok fresh9"
    by (simp_all add: fresh9_def dict_ok_def)
  have p: "\<forall>t \<in> set (open_tiles fresh9). 0 < t" "{4, 9} \<subseteq> set (open_tiles fresh9)"
    by (simp_all add: fresh9_def open_tiles_def)
  have r0: "roll fresh9 (Some 0) (1, 1) = (0, fresh9\<lparr>over := True, last_roll := Some 0\<rparr>)"
    by code_simp
  have r13: "roll fresh9 (Some 13) (1, 1) = (13, fresh9\<lparr>last_roll := Some 13\<rparr>)"
    by code_simp
  show ?thesis
    using n d p r0 r13 roll_forced_unvalidated [OF n d, of 0 "(1, 1)"]
      roll_forced_unvalidated [OF n d, of 13 "(1, 1)"]
    by simp
qed

section \<open>The policies choose among the moves they enumerate\<close>

lemma foldl_min_in:
  "foldl (\<lambda>best y. if key y < (key best :: int) then y else best) x xs \<in> set (x # xs)"
proof (induction xs arbitrary: x)
  case Nil
  then show ?case by simp
next
  case (Cons y ys)
  show ?case
    using Cons.IH [of y] Cons.IH [of x] by auto
qed

lemma min_by_in: "min_by key xs = Some m \<Longrightarrow> m \<in> set xs"
  using foldl_min_in [of key] by (cases xs) auto

lemma foldl_min_first:
  "\<forall>y \<in> set xs. key x \<le> key y \<Longrightarrow>
   foldl (\<lambda>best y. if key y < (key best :: int) then y else best) x xs = x"
  by (induction xs) auto

lemma min_by_first:
  "xs \<noteq> [] \<Longrightarrow> \<forall>y \<in> set xs. key (hd xs) \<le> key y \<Longrightarrow> min_by key xs = Some (hd xs)"
  by (cases xs) (simp_all add: foldl_min_first)

lemma choice_in: "xs \<noteq> [] \<Longrightarrow> choice k xs \<in> set xs"
  by (simp add: choice_def)

lemma compute_legal_moves_shape:
  assumes "m \<in> set (compute_legal_moves g r)"
  shows "(length m = 1 \<or> length m = 2) \<and> sum_list m = r"
  using assms unfolding compute_legal_moves_def Let_def
  by (auto split: if_splits)

lemma compute_legal_moves_singles_first:
  assumes "legal = compute_legal_moves g r" "legal \<noteq> []" "m \<in> set legal"
  shows "length (hd legal) \<le> length m"
proof (cases "filter (\<lambda>t. t = r) (open_tiles_list g)")
  case Nil
  then have "\<forall>m \<in> set legal. length m = 2"
    using assms(1) unfolding compute_legal_moves_def Let_def by (auto split: if_splits)
  then show ?thesis using assms(2,3) by (metis hd_in_set order_refl)
next
  case (Cons t ts)
  then have "hd legal = [t]"
    using assms(1) unfolding compute_legal_moves_def Let_def by simp
  moreover have "1 \<le> length m"
    using compute_legal_moves_shape [of m g r] assms(1,3) by auto
  ultimately show ?thesis by simp
qed


lemma random_move_in:
  "fst (random_move g d k) = Some m \<Longrightarrow>
   m \<in> set (compute_legal_moves (snd (roll g None d)) (fst (roll g None d)))"
  unfolding random_move_def Let_def split_beta
  by (auto simp: choice_in split: if_splits)

lemma greedy_move_in:
  "fst (greedy_move g d) = Some m \<Longrightarrow>
   m \<in> set (compute_legal_moves (snd (roll g None d)) (fst (roll g None d)))"
  unfolding greedy_move_def Let_def split_beta
  by (auto dest: min_by_in split: if_splits)

lemma human_move_in:
  assumes "fst (human_move g d d') = Some m"
  shows "m \<in> set (compute_legal_moves (snd (roll g None d)) (fst (roll g None d))) \<or>
         m \<in> set (compute_legal_moves (snd (roll (snd (roll g None d)) None d'))
                                        (fst (roll (snd (roll g None d)) None d')))"
proof -
  let ?g = "snd (roll g None d)" and ?r = "fst (roll g None d)"
  let ?legal = "compute_legal_moves ?g ?r"
  let ?multi = "filter (\<lambda>mv. length mv \<ge> 2) ?legal"
  show ?thesis
  proof (cases "?legal = []")
    case True
    then show ?thesis using assms by (simp add: human_move_def Let_def split_beta)
  next
    case False
    show ?thesis
    proof (cases "?multi = []")
      case True
      then have "human_move g d d' = greedy_move ?g d'"
        using False by (simp add: human_move_def Let_def split_beta)
      then show ?thesis using assms greedy_move_in [of ?g d' m] by simp
    next
      case m: False
      then have "fst (human_move g d d') = min_by (\<lambda>mv. remaining_sum_after ?g (Some mv)) ?multi"
        using False by (simp add: human_move_def Let_def split_beta)
      then have "m \<in> set ?multi" using assms min_by_in by metis
      then show ?thesis by simp
    qed
  qed
qed

lemma pick_move_in:
  assumes "fst (pick_move table py_int g d) = Inr (Some m)"
  shows "m \<in> set (compute_legal_moves (snd (roll g None d)) (fst (roll g None d)))"
  using assms unfolding pick_move_def Let_def split_beta
  by (auto dest: min_by_in split: if_splits option.splits sum.splits)

lemma collect_turn_in:
  "fst (collect_turn g d k) = Some m \<Longrightarrow>
   m \<in> set (compute_legal_moves (snd (roll g None d)) (fst (roll g None d)))"
  unfolding collect_turn_def Let_def split_beta
  by (auto simp: choice_in split: if_splits)

text \<open>
  Claim C9. \<open>compute_legal_moves\<close> yields only single tiles equal to the roll and pairs
  of tiles that sum to it. So every move that \<open>random_move\<close>, \<open>greedy_move\<close>, \<open>human_move\<close>,
  the table policy \<open>pick_move\<close> (on a table hit as on its fallback) and a turn of the
  run-collection script return has at most two tiles; a combination of three tiles or
  more is never among them, even when \<open>available_moves\<close> holds one.
\<close>

theorem policy_moves_at_most_two:
  "(\<forall>m \<in> set (compute_legal_moves g r). (length m = 1 \<or> length m = 2) \<and> sum_list m = r)
   \<and> (fst (random_move g d k) = Some m \<longrightarrow> length m \<le> 2)
   \<and> (fst (greedy_move g d) = Some m \<longrightarrow> length m \<le> 2)
   \<and> (fst (human_move g d d') = Some m \<longrightarrow> length m \<le> 2)
   \<and> (fst (pick_move table py_int g d) = Inr (Some m) \<longrightarrow> length m \<le> 2)
   \<and> (fst (collect_turn g d k) = Some m \<longrightarrow> length m \<le> 2)"
proof -
  have two: "\<And>x y. m \<in> set (compute_legal_moves x y) \<Longrightarrow> length m \<le> 2"
    using compute_legal_moves_shape by fastforce
  have a: "\<forall>m \<in> set (compute_legal_moves g r). (length m = 1 \<or> length m = 2) \<and> sum_list m = r"
    using compute_legal_moves_shape by blast
  have b: "fst (random_move g d k) = Some m \<longrightarrow> length m \<le> 2"
    using random_move_in two by blast
  have c: "fst (greedy_move g d) = Some m \<longrightarrow> length m \<le> 2"
    using greedy_move_in two by blast
  have e: "fst (human_move g d d') = Some m \<longrightarrow> length m \<le> 2"
    using human_move_in two by blast
  have f: "fst (pick_move table py_int g d) = Inr (Some m) \<longrightarrow> length m \<le> 2"
    using pick_move_in two by blast
  have h: "fst (collect_turn g d k) = Some m \<longrightarrow> length m \<le> 2"
    using collect_turn_in two by blast
  from a b c e f h show ?thesis by blast
qed









lemma combos_that_sum_sum:
  "c \<in> set (combos_that_sum nums target) \<Longrightarrow> sum_list c = target"
proof -
  assume "c \<in> set (combos_that_sum nums target)"
  then have "c \<in> set (concat (map (\<lambda>k. filter (\<lambda>c. sum_list c = target)
                 (combinations (sort nums) k)) [1 ..< length (sort nums) + 1]))"
    unfolding combos_that_sum_def Let_def
    by (simp only: set_sorted_list_of_set [OF finite_set])
  then show ?thesis by auto
qed

lemma sorted_hd_le:
  fixes xs :: "('a :: linorder) list"
  shows "sorted xs \<Longrightarrow> m \<in> set xs \<Longrightarrow> hd xs \<le> m"
  by (cases xs) auto

text \<open>
  Every legal move sums to the roll, so all legal moves leave the same score and the
  keys of \<^verbatim>\<open>min\<close> tie: \<open>policy_greedy_min_remaining\<close> returns the first of
  \<open>available_moves\<close>, the least tuple in the lexicographic order, whatever its size, and
  \<open>greedy_move\<close> the first of \<open>compute_legal_moves\<close>, which lists the single tile before the
  pairs.
\<close>

lemma min_remaining_takes_first:
  assumes "roll g None d = (r, g')"
  shows "(available_moves g' r \<noteq> [] \<longrightarrow>
            fst (policy_greedy_min_remaining g d) = Some (hd (available_moves g' r))
            \<and> (\<forall>m \<in> set (available_moves g' r).
                  hd (available_moves g' r) \<le> m
                  \<and> sum_list (open_tiles g') - sum_list m = score g' - r))
       \<and> (compute_legal_moves g' r \<noteq> [] \<longrightarrow>
            fst (greedy_move g d) = Some (hd (compute_legal_moves g' r))
            \<and> (\<forall>m \<in> set (compute_legal_moves g' r).
                  length (hd (compute_legal_moves g' r)) \<le> length m
                  \<and> remaining_sum_after g' (Some m) = score g' - r))"
proof -
  have keyA: "\<forall>m \<in> set (available_moves g' r).
      sum_list (open_tiles g') - sum_list m = score g' - r"
    by (simp add: available_moves_def combos_that_sum_sum score_def)
  have sortedA: "sorted (available_moves g' r)"
    using combos_that_sum_sorted [of "open_tiles g'" r]
    by (simp add: available_moves_def strict_sorted_iff)
  have A: "available_moves g' r \<noteq> [] \<longrightarrow>
      fst (policy_greedy_min_remaining g d) = Some (hd (available_moves g' r))"
  proof
    assume ne: "available_moves g' r \<noteq> []"
    have "min_by (\<lambda>mv. sum_list (open_tiles g') - sum_list mv) (available_moves g' r)
        = Some (hd (available_moves g' r))"
      using ne keyA by (intro min_by_first) simp_all
    then show "fst (policy_greedy_min_remaining g d) = Some (hd (available_moves g' r))"
      using ne assms by (simp add: policy_greedy_min_remaining_def Let_def)
  qed
  have keyB: "\<forall>m \<in> set (compute_legal_moves g' r). remaining_sum_after g' (Some m) = score g' - r"
    using compute_legal_moves_shape [of _ g' r]
    by (simp add: remaining_sum_after_def score_def open_tiles_def open_tiles_list_def)
  have B: "compute_legal_moves g' r \<noteq> [] \<longrightarrow>
      fst (greedy_move g d) = Some (hd (compute_legal_moves g' r))"
  proof
    assume ne: "compute_legal_moves g' r \<noteq> []"
    have "min_by (\<lambda>mv. remaining_sum_after g' (Some mv)) (compute_legal_moves g' r)
        = Some (hd (compute_legal_moves g' r))"
      using ne keyB by (intro min_by_first) simp_all
    then show "fst (greedy_move g d) = Some (hd (compute_legal_moves g' r))"
      using ne assms by (simp add: greedy_move_def Let_def)
  qed
  have lenB: "compute_legal_moves g' r \<noteq> [] \<longrightarrow>
      (\<forall>m \<in> set (compute_legal_moves g' r). length (hd (compute_legal_moves g' r)) \<le> length m)"
    using compute_legal_moves_singles_first [of "compute_legal_moves g' r" g' r] by blast
  from A B keyA keyB lenB sorted_hd_le [OF sortedA] show ?thesis by blast
qed

lemma fold_min_score_step:
  assumes "legal \<noteq> []"
  shows "\<exists>bm. fold (min_score_step g) legal (None, None) = (Some bm, Some (score_after g bm))
              \<and> bm \<in> set legal
              \<and> (\<forall>m \<in> set legal. score_after g bm \<le> score_after g m)
              \<and> (\<forall>m \<in> set legal. score_after g m = score_after g bm \<longrightarrow> length bm \<le> length m)"
  using assms
proof (induction legal rule: rev_induct)
  case Nil
  then show ?case by simp
next
  case (snoc x xs)
  show ?case
  proof (cases "xs = []")
    case True
    then show ?thesis by (simp add: min_score_step_def)
  next
    case False
    from snoc.IH [OF False] obtain bm where
      st: "fold (min_score_step g) xs (None, None) = (Some bm, Some (score_after g bm))"
      and mem: "bm \<in> set xs"
      and least: "\<forall>m \<in> set xs. score_after g bm \<le> score_after g m"
      and fewest: "\<forall>m \<in> set xs. score_after g m = score_after g bm \<longrightarrow> length bm \<le> length m"
      by blast
    have step: "fold (min_score_step g) (xs @ [x]) (None, None)
        = min_score_step g x (Some bm, Some (score_after g bm))"
      by (simp add: st)
    show ?thesis
    proof (cases "score_after g x < score_after g bm
                  \<or> (score_after g x = score_after g bm \<and> length x < length bm)")
      case True
      then have "fold (min_score_step g) (xs @ [x]) (None, None)
          = (Some x, Some (score_after g x))"
        unfolding step min_score_step_def Let_def by auto
      moreover have "\<forall>m \<in> set (xs @ [x]). score_after g x \<le> score_after g m"
        using True least by auto
      moreover have "\<forall>m \<in> set (xs @ [x]).
          score_after g m = score_after g x \<longrightarrow> length x \<le> length m"
        using True least fewest by fastforce
      ultimately show ?thesis by auto
    next
      case False
      then have "fold (min_score_step g) (xs @ [x]) (None, None)
          = (Some bm, Some (score_after g bm))"
        unfolding step min_score_step_def Let_def by auto
      moreover have "\<forall>m \<in> set (xs @ [x]). score_after g bm \<le> score_after g m"
        using False least by auto
      moreover have "\<forall>m \<in> set (xs @ [x]).
          score_after g m = score_after g bm \<longrightarrow> length bm \<le> length m"
        using False fewest by auto
      ultimately show ?thesis using mem by auto
    qed
  qed
qed

text \<open>
  \<open>min_score_policy\<close> keeps what its docstring says: it returns a legal move of least score
  after the move, and of the fewest tiles among the moves of that score.
\<close>

lemma min_score_policy_fewest_tiles:
  assumes "legal \<noteq> []"
  shows "min_score_policy g legal \<in> set legal
       \<and> (\<forall>m \<in> set legal. score_after g (min_score_policy g legal) \<le> score_after g m)
       \<and> (\<forall>m \<in> set legal. score_after g m = score_after g (min_score_policy g legal)
               \<longrightarrow> length (min_score_policy g legal) \<le> length m)"
proof -
  from fold_min_score_step [OF assms, of g] obtain bm where
    st: "fold (min_score_step g) legal (None, None) = (Some bm, Some (score_after g bm))"
    and rest: "bm \<in> set legal"
      "\<forall>m \<in> set legal. score_after g bm \<le> score_after g m"
      "\<forall>m \<in> set legal. score_after g m = score_after g bm \<longrightarrow> length bm \<le> length m"
    by blast
  have "min_score_policy g legal = bm"
    using assms by (simp add: min_score_policy_def st)
  then show ?thesis using rest by simp
qed

text \<open>
  Claim C6 holds of \<open>min_score_policy\<close> and fails on \<open>policy_greedy_min_remaining\<close>. On the
  fresh board with the dice 4 and 5 the moves \<open>[9]\<close> and \<open>[1, 2, 6]\<close> are both legal and
  both leave the score 36; \<open>policy_greedy_min_remaining\<close> returns \<open>[1, 2, 6]\<close>, three tiles
  where one would do, and \<open>min_score_policy\<close> returns \<open>[9]\<close> from the same legal moves.
\<close>

theorem min_remaining_misses_tie_break:
  "roll fresh9 None (4, 5) = (9, fresh9\<lparr>last_roll := Some 9\<rparr>)
   \<and> available_moves (fresh9\<lparr>last_roll := Some 9\<rparr>) 9
       = [[1, 2, 6], [1, 3, 5], [1, 8], [2, 3, 4], [2, 7], [3, 6], [4, 5], [9]]
   \<and> fst (policy_greedy_min_remaining fresh9 (4, 5)) = Some [1, 2, 6]
   \<and> fst (move (fresh9\<lparr>last_roll := Some 9\<rparr>) [9]) = True
   \<and> score (snd (move (fresh9\<lparr>last_roll := Some 9\<rparr>) [9])) = 36
   \<and> score (snd (move (fresh9\<lparr>last_roll := Some 9\<rparr>) [1, 2, 6])) = 36
   \<and> length [9 :: int] < length [1, 2, 6 :: int]
   \<and> min_score_policy (fresh9\<lparr>last_roll := Some 9\<rparr>)
        (available_moves (fresh9\<lparr>last_roll := Some 9\<rparr>) 9) = [9]"
proof -
  have a: "roll fresh9 None (4, 5) = (9, fresh9\<lparr>last_roll := Some 9\<rparr>)" by code_simp
  have m: "available_moves (fresh9\<lparr>last_roll := Some 9\<rparr>) 9
       = [[1, 2, 6], [1, 3, 5], [1, 8], [2, 3, 4], [2, 7], [3, 6], [4, 5], [9]]"
    by code_simp
  have b: "fst (policy_greedy_min_remaining fresh9 (4, 5)) = Some [1, 2, 6]" by code_simp
  have e: "fst (move (fresh9\<lparr>last_roll := Some 9\<rparr>) [9]) = True" by code_simp
  have f: "score (snd (move (fresh9\<lparr>last_roll := Some 9\<rparr>) [9])) = 36" by code_simp
  have h: "score (snd (move (fresh9\<lparr>last_roll := Some 9\<rparr>) [1, 2, 6])) = 36" by code_simp
  have p: "min_score_policy (fresh9\<lparr>last_roll := Some 9\<rparr>)
        [[1, 2, 6], [1, 3, 5], [1, 8], [2, 3, 4], [2, 7], [3, 6], [4, 5], [9]] = [9]"
    by code_simp
  from a m b e f h p show ?thesis by simp
qed

theorem policy_moves_at_most_two_witness:
  "compute_legal_moves fresh9 9 = [[9], [1, 8], [2, 7], [3, 6], [4, 5]]
   \<and> [1, 2, 6] \<in> set (available_moves fresh9 9)
   \<and> [1, 2, 6] \<notin> set (compute_legal_moves fresh9 9)
   \<and> fst (random_move fresh9 (4, 5) 7) = Some [2, 7]
   \<and> fst (greedy_move fresh9 (4, 5)) = Some [9]
   \<and> fst (human_move fresh9 (4, 5) (1, 1)) = Some [1, 8]
   \<and> pick_move (\<lambda>k. Some ''1+2+6'')
        (\<lambda>s. if s = ''1'' then Some 1 else if s = ''2'' then Some 2 else Some 6) fresh9 (4, 5)
       = (Inr (Some [9]), fresh9\<lparr>last_roll := Some 9\<rparr>)
   \<and> fst (collect_turn fresh9 (4, 5) 3) = Some [3, 6]
   \<and> length [2 :: int, 7] \<le> 2 \<and> length [9 :: int] \<le> 2 \<and> length [1 :: int, 8] \<le> 2
   \<and> length [3 :: int, 6] \<le> 2"
proof -
  have c: "compute_legal_moves fresh9 9 = [[9], [1, 8], [2, 7], [3, 6], [4, 5]]"
    by code_simp
  have a: "[1, 2, 6] \<in> set (available_moves fresh9 9)"
    by code_simp
  have r: "fst (random_move fresh9 (4, 5) 7) = Some [2, 7]" by code_simp
  have g: "fst (greedy_move fresh9 (4, 5)) = Some [9]" by code_simp
  have h: "fst (human_move fresh9 (4, 5) (1, 1)) = Some [1, 8]" by code_simp
  have p: "pick_move (\<lambda>k. Some ''1+2+6'')
        (\<lambda>s. if s = ''1'' then Some 1 else if s = ''2'' then Some 2 else Some 6) fresh9 (4, 5)
       = (Inr (Some [9]), fresh9\<lparr>last_roll := Some 9\<rparr>)"
    by code_simp
  have t: "fst (collect_turn fresh9 (4, 5) 3) = Some [3, 6]" by code_simp
  show ?thesis
    using c a r g h p t
      policy_moves_at_most_two [where g = fresh9 and r = 9 and d = "(4, 5)" and k = 7
        and m = "[2, 7]"]
      policy_moves_at_most_two [where g = fresh9 and d = "(4, 5)" and m = "[9]"
        and table = "\<lambda>k. Some ''1+2+6''"
        and py_int = "\<lambda>s. if s = ''1'' then Some 1 else if s = ''2'' then Some 2 else Some 6"]
      policy_moves_at_most_two [where g = fresh9 and d = "(4, 5)" and d' = "(1, 1)"
        and m = "[1, 8]"]
      policy_moves_at_most_two [where g = fresh9 and d = "(4, 5)" and k = 3 and m = "[3, 6]"]
    by simp
qed

section \<open>The aggregator ranks by ascending mean\<close>

text \<open>The rounding keeps a number between two integers of the exact range.\<close>

lemma rhe_bounds: "\<lfloor>t\<rfloor> \<le> round_half_even t \<and> round_half_even t \<le> \<lceil>t\<rceil>"
  unfolding round_half_even_def Let_def
  by (auto simp: ceiling_altdef) 

lemma flog2_bounds:
  assumes "0 < a"
  shows "2 powi (flog2 a) \<le> a \<and> a < 2 powi (flog2 a + 1)"
proof -
  obtain p q where pq: "quotient_of a = (p, q)" by (cases "quotient_of a")
  have q: "0 < q" using quotient_of_denom_pos [OF pq] .
  have a: "a = of_int p / of_int q" using quotient_of_div [OF pq] .
  have p: "0 < p" using assms q a by (simp add: zero_less_divide_iff)
  let ?bp = "bitlen p" and ?bq = "bitlen q"
  let ?k = "?bp - ?bq"
  have bp: "2 ^ nat (?bp - 1) \<le> p" "p < 2 ^ nat ?bp" using bitlen_bounds [OF p] by simp_all
  have bq: "2 ^ nat (?bq - 1) \<le> q" "q < 2 ^ nat ?bq" using bitlen_bounds [OF q] by simp_all
  have bp1: "1 \<le> ?bp" using p bitlen_eq_zero_iff [of p] bitlen_nonneg [of p] by linarith
  have bq1: "1 \<le> ?bq" using q bitlen_eq_zero_iff [of q] bitlen_nonneg [of q] by linarith
  have P1: "(2::rat) powi (?bp - 1) \<le> of_int p"
  proof -
    have "(of_int (2 ^ nat (?bp - 1)) :: rat) \<le> of_int p" using bp(1) by (simp only: of_int_le_iff)
    then show ?thesis using bp1 by (simp add: power_int_def)
  qed
  have P2: "(of_int p :: rat) < 2 powi ?bp"
  proof -
    have "(of_int p :: rat) < of_int (2 ^ nat ?bp)" using bp(2) by (simp only: of_int_less_iff)
    then show ?thesis using bp1 by (simp add: power_int_def)
  qed
  have Q1: "(2::rat) powi (?bq - 1) \<le> of_int q"
  proof -
    have "(of_int (2 ^ nat (?bq - 1)) :: rat) \<le> of_int q" using bq(1) by (simp only: of_int_le_iff)
    then show ?thesis using bq1 by (simp add: power_int_def)
  qed
  have Q2: "(of_int q :: rat) < 2 powi ?bq"
  proof -
    have "(of_int q :: rat) < of_int (2 ^ nat ?bq)" using bq(2) by (simp only: of_int_less_iff)
    then show ?thesis using bq1 by (simp add: power_int_def)
  qed
  have qpos: "(0::rat) < of_int q" using q by simp
  have up: "a < 2 powi (?k + 1)"
  proof -
    have "of_int p < (2::rat) powi ?bp" by (rule P2)
    also have "\<dots> = 2 powi (?k + 1) * 2 powi (?bq - 1)"
      by (simp add: power_int_add [symmetric])
    also have "\<dots> \<le> 2 powi (?k + 1) * of_int q"
      using Q1 by (intro mult_left_mono) simp_all
    finally show ?thesis using qpos by (simp add: a pos_divide_less_eq)
  qed
  have low: "2 powi (?k - 1) < a"
  proof -
    have "(2::rat) powi (?k - 1) * of_int q < 2 powi (?k - 1) * 2 powi ?bq"
      using Q2 by (intro mult_strict_left_mono) simp_all
    also have "\<dots> = 2 powi (?bp - 1)"
      by (simp add: power_int_add [symmetric])
    also have "\<dots> \<le> of_int p" by (rule P1)
    finally show ?thesis using qpos by (simp add: a pos_less_divide_eq)
  qed
  show ?thesis
  proof (cases "2 powi ?k \<le> a")
    case True
    then have "flog2 a = ?k" by (simp add: flog2_def pq)
    then show ?thesis using True up by simp
  next
    case False
    then have f: "flog2 a = ?k - 1" by (simp add: flog2_def pq)
    have "2 powi (?k - 1) \<le> a" using low by simp
    moreover have "a < 2 powi (?k - 1 + 1)" using False by simp
    ultimately show ?thesis unfolding f by blast
  qed
qed

lemma fl64_pos_upper:
  assumes x: "0 < x" and hi: "x \<le> of_int hi" and b: "hi \<le> 2 ^ 53"
  shows "fl64 x \<le> of_int hi"
proof -
  let ?e = "flog2 x - 52"
  let ?t = "x / 2 powi ?e"
  let ?m = "round_half_even ?t"
  have fl: "fl64 x = of_int ?m * 2 powi ?e"
    using x by (simp add: fl64_def Let_def)
  have fb: "2 powi (flog2 x) \<le> x" "x < 2 powi (flog2 x + 1)"
    using flog2_bounds [OF x] by simp_all
  have pe: "(0::rat) < 2 powi ?e" by simp
  show ?thesis
  proof (cases "?e \<le> 0")
    case True
    define G :: int where "G = 2 ^ nat (- ?e)"
    have G: "(2::rat) powi ?e = 1 / of_int G"
      using True by (simp add: G_def power_int_def field_simps)
    have Gpos: "(0::rat) < of_int G" by (simp add: G_def)
    have "?t = x * of_int G" by (simp add: G)
    also have "\<dots> \<le> of_int hi * of_int G"
      using hi Gpos by (intro mult_right_mono) simp_all
    finally have "?t \<le> of_int (hi * G)" by simp
    then have "\<lceil>?t\<rceil> \<le> hi * G" by (simp only: ceiling_le_iff)
    then have "?m \<le> hi * G" using rhe_bounds [of ?t] by linarith
    then have "(of_int ?m :: rat) \<le> of_int (hi * G)" by (simp only: of_int_le_iff)
    then have "(of_int ?m :: rat) / of_int G \<le> of_int hi"
      using Gpos by (simp add: pos_divide_le_eq)
    then show ?thesis by (simp add: fl G)
  next
    case False
    then have e1: "1 \<le> ?e" by simp
    have "(2::rat) ^ 53 = 2 powi 53" by simp
    also have "\<dots> \<le> 2 powi (flog2 x)"
      using e1 by (intro power_int_increasing) simp_all
    also have "\<dots> \<le> x" by (rule fb(1))
    finally have x53: "(2::rat) ^ 53 \<le> x" .
    have "of_int hi \<le> (of_int (2 ^ 53) :: rat)" using b by (simp only: of_int_le_iff)
    then have hi53: "of_int hi \<le> (2::rat) ^ 53" by simp
    have xeq: "x = 2 ^ 53" and hieq: "of_int hi = (2::rat) ^ 53"
      using x53 hi hi53 by simp_all
    have "fl64 (2 ^ 53) = 2 ^ 53" by code_simp
    then have "fl64 x = 2 ^ 53" by (simp only: xeq)
    then show ?thesis using hieq by simp
  qed
qed

lemma fl64_pos_lower:
  assumes x: "0 < x" and lo: "of_int lo \<le> x" and b: "lo \<le> 2 ^ 53"
  shows "of_int lo \<le> fl64 x"
proof -
  let ?e = "flog2 x - 52"
  let ?t = "x / 2 powi ?e"
  let ?m = "round_half_even ?t"
  have fl: "fl64 x = of_int ?m * 2 powi ?e"
    using x by (simp add: fl64_def Let_def)
  have fb: "2 powi (flog2 x) \<le> x" "x < 2 powi (flog2 x + 1)"
    using flog2_bounds [OF x] by simp_all
  have pe: "(0::rat) < 2 powi ?e" by simp
  have t52: "(2::rat) ^ 52 \<le> ?t"
  proof -
    have "(2::rat) powi (52 + ?e) = 2 powi 52 * 2 powi ?e"
      by (rule power_int_add) simp
    then have "(2::rat) ^ 52 * 2 powi ?e = 2 powi (flog2 x)" by simp
    also have "\<dots> \<le> x" by (rule fb(1))
    finally show ?thesis using pe by (simp add: pos_le_divide_eq)
  qed
  have "(of_int (2 ^ 52) :: rat) \<le> ?t" using t52 by simp
  then have "2 ^ 52 \<le> \<lfloor>?t\<rfloor>" by (simp only: le_floor_iff)
  then have m52: "2 ^ 52 \<le> ?m" using rhe_bounds [of ?t] by linarith
  show ?thesis
  proof (cases "?e \<le> 0")
    case True
    define G :: int where "G = 2 ^ nat (- ?e)"
    have G: "(2::rat) powi ?e = 1 / of_int G"
      using True by (simp add: G_def power_int_def field_simps)
    have Gpos: "(0::rat) < of_int G" by (simp add: G_def)
    have "of_int (lo * G) = of_int lo * (of_int G :: rat)" by simp
    also have "\<dots> \<le> x * of_int G"
      using lo Gpos by (intro mult_right_mono) simp_all
    also have "\<dots> = ?t" by (simp add: G)
    finally have "lo * G \<le> \<lfloor>?t\<rfloor>" by (simp only: le_floor_iff)
    then have "lo * G \<le> ?m" using rhe_bounds [of ?t] by linarith
    then have "(of_int (lo * G) :: rat) \<le> of_int ?m" by (simp only: of_int_le_iff)
    then have "of_int lo \<le> (of_int ?m :: rat) / of_int G"
      using Gpos by (simp add: pos_le_divide_eq)
    then show ?thesis by (simp add: fl G)
  next
    case False
    then have e1: "1 \<le> ?e" by simp
    have "(of_int lo :: rat) \<le> of_int (2 ^ 53)" using b by (simp only: of_int_le_iff)
    also have "\<dots> = 2 ^ 52 * 2 powi 1" by simp
    also have "\<dots> \<le> 2 ^ 52 * 2 powi ?e"
      using e1 by (intro mult_left_mono power_int_increasing) simp_all
    also have "\<dots> \<le> of_int ?m * 2 powi ?e"
    proof -
      have "(of_int (2 ^ 52) :: rat) \<le> of_int ?m" using m52 by (simp only: of_int_le_iff)
      then show ?thesis using pe by (intro mult_right_mono) simp_all
    qed
    finally show ?thesis by (simp add: fl)
  qed
qed

lemma fl64_minus: "fl64 (- x) = - fl64 x"
  by (simp add: fl64_def Let_def)

lemma fl64_between:
  assumes "of_int lo \<le> x" "x \<le> of_int hi" "- (2 ^ 53) \<le> lo" "hi \<le> 2 ^ 53"
  shows "of_int lo \<le> fl64 x \<and> fl64 x \<le> of_int hi"
proof -
  consider "x = 0" | "0 < x" | "x < 0" by linarith
  then show ?thesis
  proof cases
    case 1
    then show ?thesis using assms by (simp add: fl64_def)
  next
    case 2
    have "lo \<le> hi" using assms(1,2) by (metis of_int_le_iff order_trans)
    then have "lo \<le> 2 ^ 53" using assms(4) by simp
    then show ?thesis
      using fl64_pos_upper [OF 2 assms(2,4)] fl64_pos_lower [OF 2 assms(1)] by simp
  next
    case 3
    then have p: "0 < - x" by simp
    have a: "- x \<le> of_int (- lo)" "of_int (- hi) \<le> - x" using assms(1,2) by simp_all
    have b: "- lo \<le> 2 ^ 53" using assms(3) by simp
    have "lo \<le> hi" using assms(1,2) by (metis of_int_le_iff order_trans)
    then have c: "- hi \<le> 2 ^ 53" using assms(3) by simp
    show ?thesis
      using fl64_pos_upper [OF p a(1) b] fl64_pos_lower [OF p a(2) c]
      by (simp add: fl64_minus)
  qed
qed

lemma sum_list_le_bound:
  "\<forall>x \<in> set xs. x \<le> (M :: int) \<Longrightarrow> sum_list xs \<le> int (length xs) * M"
  by (induction xs) (auto simp: algebra_simps)

lemma sum_list_ge_bound:
  "\<forall>x \<in> set xs. (M :: int) \<le> x \<Longrightarrow> int (length xs) * M \<le> sum_list xs"
  by (induction xs) (auto simp: algebra_simps)

lemma exact_mean_le:
  assumes "xs \<noteq> []" "\<forall>x \<in> set xs. x \<le> M"
  shows "exact_mean xs \<le> of_int M"
proof -
  have pos: "(0 :: rat) < of_nat (length xs)" using assms(1) by simp
  have "(of_int (sum_list xs) :: rat) \<le> of_int (int (length xs) * M)"
    using sum_list_le_bound [OF assms(2)] by (simp only: of_int_le_iff)
  then have "(of_int (sum_list xs) :: rat) \<le> of_int M * of_nat (length xs)"
    by (simp add: mult.commute)
  then show ?thesis
    unfolding exact_mean_def using pos by (simp add: pos_divide_le_eq)
qed

lemma exact_mean_ge:
  assumes "xs \<noteq> []" "\<forall>x \<in> set xs. M \<le> x"
  shows "of_int M \<le> exact_mean xs"
proof -
  have pos: "(0 :: rat) < of_nat (length xs)" using assms(1) by simp
  have "(of_int (int (length xs) * M) :: rat) \<le> of_int (sum_list xs)"
    using sum_list_ge_bound [OF assms(2)] by (simp only: of_int_le_iff)
  then have "(of_int M * of_nat (length xs) :: rat) \<le> of_int (sum_list xs)"
    by (simp add: mult.commute)
  then show ?thesis
    unfolding exact_mean_def using pos by (simp add: pos_le_divide_eq)
qed

lemma abs_le_sum_abs: "x \<in> set xs \<Longrightarrow> \<bar>x\<bar> \<le> sum_list (map abs (xs :: int list))"
proof (induction xs)
  case Nil
  then show ?case by simp
next
  case (Cons y ys)
  have "0 \<le> sum_list (map abs ys)" by (rule sum_list_nonneg) auto
  then show ?case using Cons by auto
qed

text \<open>
  The float nearest to the exact mean lies between the least and the greatest score of
  a group in the exact range.
\<close>

lemma ieee_mean_between:
  assumes "xs \<noteq> []" "exact_range xs"
  shows "of_int (Min (set xs)) \<le> ieee_mean xs \<and> ieee_mean xs \<le> of_int (Max (set xs))"
proof -
  let ?lo = "Min (set xs)" and ?hi = "Max (set xs)"
  have mem: "?lo \<in> set xs" "?hi \<in> set xs" using assms(1) by simp_all
  have "\<bar>?lo\<bar> \<le> 2 ^ 53" "\<bar>?hi\<bar> \<le> 2 ^ 53"
    using abs_le_sum_abs [OF mem(1)] abs_le_sum_abs [OF mem(2)] assms(2)
    by (simp_all add: exact_range_def)
  then have b: "- (2 ^ 53) \<le> ?lo" "?hi \<le> 2 ^ 53" by linarith+
  have lo: "of_int ?lo \<le> exact_mean xs" using assms(1) by (intro exact_mean_ge) simp_all
  have hi: "exact_mean xs \<le> of_int ?hi" using assms(1) by (intro exact_mean_le) simp_all
  show ?thesis unfolding ieee_mean_def using fl64_between [OF lo hi b] .
qed

lemma mean64_less:
  assumes between: "\<And>xs. xs \<noteq> [] \<Longrightarrow> exact_range xs \<Longrightarrow>
             of_int (Min (set xs)) \<le> mean64 xs \<and> mean64 xs \<le> of_int (Max (set xs))"
    and "xs \<noteq> []" "ys \<noteq> []" "exact_range xs" "exact_range ys"
    and "\<forall>x \<in> set xs. \<forall>y \<in> set ys. x < y"
  shows "mean64 xs < (mean64 ys :: rat)"
proof -
  let ?M = "Max (set xs)" and ?m = "Min (set ys)"
  have "?M \<in> set xs" "?m \<in> set ys" using assms(2,3) by simp_all
  then have lt: "?M < ?m" using assms(6) by blast
  have "mean64 xs \<le> of_int ?M" using between [OF assms(2,4)] by simp
  also have "\<dots> < of_int ?m" using lt by simp
  also have "\<dots> \<le> mean64 ys" using between [OF assms(3,5)] by simp
  finally show ?thesis .
qed

lemma sorted_key_positions:
  fixes f :: "'a \<Rightarrow> 'b :: linorder"
  assumes "sorted (map f L)" "a \<in> set L" "b \<in> set L" "f a < f b"
  shows "\<exists>i j. i < j \<and> j < length L \<and> L ! i = a \<and> L ! j = b"
proof -
  obtain i where i: "i < length L" "L ! i = a" using assms(2) by (auto simp: in_set_conv_nth)
  obtain j where j: "j < length L" "L ! j = b" using assms(3) by (auto simp: in_set_conv_nth)
  have "i < j"
  proof (rule ccontr)
    assume "\<not> i < j"
    then have "j \<le> i" by simp
    then have "map f L ! j \<le> map f L ! i"
      using assms(1) i(1) by (simp add: sorted_iff_nth_mono del: nth_map)
    then show False using i j assms(4) by simp
  qed
  then show ?thesis using i j by blast
qed

lemma group_keys_set: "set (group_keys df) = strategy ` set df"
  by (simp add: group_keys_def)

lemma group_scores_nonempty: "S \<in> strategy ` set df \<Longrightarrow> group_scores df S \<noteq> []"
  by (auto simp: group_scores_def filter_empty_conv)

lemma group_scores_set: "set (group_scores df S) = run_score ` {r \<in> set df. strategy r = S}"
  by (auto simp: group_scores_def)

lemma summary_set:
  "set (summary mean64 df) = (\<lambda>s. (s, agg mean64 (group_scores df s))) ` (strategy ` set df)"
  by (simp add: summary_def group_keys_set)

lemma summary_sorted:
  "sorted (map (\<lambda>(s, row). mean_score row) (summary mean64 df))"
  by (simp add: summary_def)

lemma summary_distinct: "distinct (map fst (summary mean64 df))"
proof -
  let ?rows = "map (\<lambda>s. (s, agg mean64 (group_scores df s))) (group_keys df)"
  have k: "distinct (group_keys df)" by (simp add: group_keys_def)
  have "map fst ?rows = group_keys df" by (simp add: comp_def)
  then have d: "distinct (map fst ?rows)" using k by simp
  then have "distinct ?rows" and "inj_on fst (set ?rows)"
    by (simp_all only: distinct_map)
  then show ?thesis
    unfolding summary_def by (simp only: distinct_map distinct_sort set_sort)
qed

lemma summary_row_of:
  assumes "S \<in> strategy ` set df"
  shows "(S, agg mean64 (group_scores df S)) \<in> set (summary mean64 df)"
  using assms by (simp add: summary_set)

lemma summary_entry:
  assumes "p \<in> set (summary mean64 df)"
  shows "fst p \<in> strategy ` set df \<and> snd p = agg mean64 (group_scores df (fst p))"
  using assms by (auto simp: summary_set)

lemma best_has_lowest_mean:
  assumes "best mean64 df = Inr S" and T: "T \<in> strategy ` set df"
  shows "S \<in> strategy ` set df \<and> mean64 (group_scores df S) \<le> mean64 (group_scores df T)"
proof -
  from assms(1) obtain row ps where ps: "summary mean64 df = (S, row) # ps"
    by (auto simp: best_def split: list.splits prod.splits)
  have p: "S \<in> strategy ` set df" "row = agg mean64 (group_scores df S)"
    using summary_entry [of "(S, row)" mean64 df] ps by simp_all
  have "(\<lambda>(s, row). mean_score row) (S, row)
      \<le> (\<lambda>(s, row). mean_score row) (T, agg mean64 (group_scores df T))"
    using summary_sorted [of mean64 df] summary_row_of [OF T, of mean64] ps by auto
  then show ?thesis using p by (simp add: agg_def)
qed

lemma best_exists:
  assumes "A \<in> strategy ` set df"
  shows "\<exists>S. best mean64 df = Inr S"
proof -
  have "summary mean64 df \<noteq> []" using summary_row_of [OF assms, of mean64] by auto
  then show ?thesis by (auto simp: best_def split: list.splits prod.splits)
qed

text \<open>
  Claim C8, as the code has it. Assume of the float mean what holds of it on every
  group in the exact range: it lies between the least and the greatest score. In a corpus
  where \<open>A\<close> and \<open>B\<close> both have rows, their groups are in the exact range and every score
  of \<open>A\<close> is strictly lower than every score of \<open>B\<close>, the mean of \<open>A\<close> is strictly lower
  than the mean of \<open>B\<close> and \<open>A\<close> stands before \<open>B\<close> in the summary, whose index holds each
  strategy once and whose means ascend. The best strategy is one of lowest mean; it is
  \<open>A\<close> when \<open>A\<close> and \<open>B\<close> are the only strategies of the corpus.
\<close>

theorem aggregator_ranks_lower_first:
  assumes between: "\<And>xs. xs \<noteq> [] \<Longrightarrow> exact_range xs \<Longrightarrow>
             of_int (Min (set xs)) \<le> mean64 xs \<and> mean64 xs \<le> of_int (Max (set xs))"
    and A: "A \<in> strategy ` set df" and B: "B \<in> strategy ` set df"
    and range: "exact_range (group_scores df A)" "exact_range (group_scores df B)"
    and lower: "\<forall>a \<in> set df. \<forall>b \<in> set df.
           strategy a = A \<and> strategy b = B \<longrightarrow> run_score a < run_score b"
  shows "(\<exists>i j. i < j \<and> j < length (summary mean64 df)
                \<and> fst (summary mean64 df ! i) = A \<and> fst (summary mean64 df ! j) = B)
       \<and> distinct (map fst (summary mean64 df))
       \<and> sorted (map (\<lambda>(s, row). mean_score row) (summary mean64 df))
       \<and> mean64 (group_scores df A) < mean64 (group_scores df B)
       \<and> (\<exists>S. best mean64 df = Inr S)
       \<and> (\<forall>S. best mean64 df = Inr S \<longrightarrow>
             S \<in> strategy ` set df
             \<and> (\<forall>T \<in> strategy ` set df.
                   mean64 (group_scores df S) \<le> mean64 (group_scores df T)))
       \<and> (strategy ` set df = {A, B} \<longrightarrow> best mean64 df = Inr A)"
proof -
  have lt: "mean64 (group_scores df A) < mean64 (group_scores df B)"
    using between group_scores_nonempty [OF A] group_scores_nonempty [OF B] range lower
    by (intro mean64_less) (auto simp: group_scores_set)
  let ?f = "\<lambda>(s, row). mean_score row"
  have "?f (A, agg mean64 (group_scores df A)) < ?f (B, agg mean64 (group_scores df B))"
    using lt by (simp add: agg_def)
  from sorted_key_positions [OF summary_sorted summary_row_of [OF A] summary_row_of [OF B] this]
  obtain i j where ij: "i < j" "j < length (summary mean64 df)"
      "summary mean64 df ! i = (A, agg mean64 (group_scores df A))"
      "summary mean64 df ! j = (B, agg mean64 (group_scores df B))"
    by blast
  then have pos: "\<exists>i j. i < j \<and> j < length (summary mean64 df)
                \<and> fst (summary mean64 df ! i) = A \<and> fst (summary mean64 df ! j) = B"
    by (metis fst_conv)
  have low: "\<forall>S. best mean64 df = Inr S \<longrightarrow>
             S \<in> strategy ` set df
             \<and> (\<forall>T \<in> strategy ` set df.
                   mean64 (group_scores df S) \<le> mean64 (group_scores df T))"
  proof (intro allI impI conjI ballI)
    fix S assume S: "best mean64 df = Inr S"
    show "S \<in> strategy ` set df" using best_has_lowest_mean [OF S A] by simp
  next
    fix S T assume S: "best mean64 df = Inr S" and T: "T \<in> strategy ` set df"
    show "mean64 (group_scores df S) \<le> mean64 (group_scores df T)"
      using best_has_lowest_mean [OF S T] by simp
  qed
  have two: "strategy ` set df = {A, B} \<longrightarrow> best mean64 df = Inr A"
  proof
    assume s: "strategy ` set df = {A, B}"
    obtain S where S: "best mean64 df = Inr S" using best_exists [OF A] by blast
    have "S \<in> {A, B}" using best_has_lowest_mean [OF S A] s by simp
    moreover have "S \<noteq> B" using best_has_lowest_mean [OF S A] lt by auto
    ultimately show "best mean64 df = Inr A" using S by simp
  qed
  have dist: "distinct (map fst (summary mean64 df))" by (rule summary_distinct)
  have srt: "sorted (map (\<lambda>(s, row). mean_score row) (summary mean64 df))"
    by (rule summary_sorted)
  have ex: "\<exists>S. best mean64 df = Inr S" by (rule best_exists [OF A])
  show ?thesis
    by (intro conjI, fact pos, fact dist, fact srt, fact lt, fact ex, fact low, fact two)
qed

theorem aggregator_ranks_lower_first_witness:
  "''greedy'' \<in> strategy ` set corpus3 \<and> ''random'' \<in> strategy ` set corpus3
   \<and> exact_range (group_scores corpus3 ''greedy'')
   \<and> exact_range (group_scores corpus3 ''random'')
   \<and> summary ieee_mean corpus3 = [(''greedy'', \<lparr>runs = 2, mean_score = 23 / 2\<rparr>),
                                   (''random'', \<lparr>runs = 1, mean_score = 20\<rparr>)]
   \<and> strategy ` set corpus3 = {''greedy'', ''random''}
   \<and> best ieee_mean corpus3 = Inr ''greedy''"
proof -
  have a: "''greedy'' \<in> strategy ` set corpus3" "''random'' \<in> strategy ` set corpus3"
    by (simp_all add: corpus3_def)
  have s: "strategy ` set corpus3 = {''greedy'', ''random''}"
    by (auto simp: corpus3_def)
  have r: "exact_range (group_scores corpus3 ''greedy'')"
      "exact_range (group_scores corpus3 ''random'')"
    by (simp_all add: exact_range_def group_scores_def corpus3_def)
  have u: "\<forall>a \<in> set corpus3. \<forall>b \<in> set corpus3.
           strategy a = ''greedy'' \<and> strategy b = ''random'' \<longrightarrow> run_score a < run_score b"
    by (simp add: corpus3_def)
  have e: "summary ieee_mean corpus3 = [(''greedy'', \<lparr>runs = 2, mean_score = 23 / 2\<rparr>),
                         (''random'', \<lparr>runs = 1, mean_score = 20\<rparr>)]"
    by code_simp
  have b: "best ieee_mean corpus3 = Inr ''greedy''"
    using s aggregator_ranks_lower_first [of ieee_mean, OF ieee_mean_between a r u]
    by blast
  from a r e s b show ?thesis by blast
qed

text \<open>
  The claim as stated fails in two ways. With a third strategy of lower mean, \<open>A\<close> is
  not the best: in \<open>corpus_third\<close> every score of \<open>b\<close> is below every score of \<open>z\<close>, and the
  best strategy is \<open>a\<close>. Beyond the exact range two means can round to one float: in
  \<open>corpus_tie\<close> the score of \<open>b\<close> is below the score of \<open>a\<close>, either group has one score, so
  that its float mean is \<open>ieee_mean\<close>, the two means are equal, and \<open>a\<close> stands first.
\<close>

theorem aggregator_counterexample:
  "group_scores corpus_third ''b'' = [1] \<and> group_scores corpus_third ''z'' = [5]
   \<and> map fst (summary ieee_mean corpus_third) = [''a'', ''b'', ''z'']
   \<and> best ieee_mean corpus_third = Inr ''a''
   \<and> group_scores corpus_tie ''b'' = [2 ^ 53] \<and> group_scores corpus_tie ''a'' = [2 ^ 53 + 1]
   \<and> ieee_mean [2 ^ 53] = 2 ^ 53 \<and> ieee_mean [2 ^ 53 + 1] = 2 ^ 53
   \<and> map fst (summary ieee_mean corpus_tie) = [''a'', ''b'']
   \<and> best ieee_mean corpus_tie = Inr ''a''"
proof -
  have a: "group_scores corpus_third ''b'' = [1]" "group_scores corpus_third ''z'' = [5]"
    by (simp_all add: group_scores_def corpus_third_def)
  have b: "map fst (summary ieee_mean corpus_third) = [''a'', ''b'', ''z'']" by code_simp
  have c: "best ieee_mean corpus_third = Inr ''a''" by code_simp
  have d: "group_scores corpus_tie ''b'' = [2 ^ 53]"
      "group_scores corpus_tie ''a'' = [2 ^ 53 + 1]"
    by (simp_all add: group_scores_def corpus_tie_def)
  have e: "ieee_mean [2 ^ 53] = 2 ^ 53" "ieee_mean [2 ^ 53 + 1] = 2 ^ 53" by code_simp+
  have f: "map fst (summary ieee_mean corpus_tie) = [''a'', ''b'']" by code_simp
  have h: "best ieee_mean corpus_tie = Inr ''a''" by code_simp
  from a b c d e f h show ?thesis by simp
qed

end
